theory Spec2Isabelle
  imports Complex_Main "HOL-Library.Word"
begin

unbundle bit_operations_syntax

section \<open>JavaScript primitives used by slackService.ts\<close>

text \<open>
  Strings are lists of code units. Isabelle's \<^typ>\<open>char\<close> has 8 bits, so a code unit is
  one of the first 256 code points; the white space class of the regular expression
  \<^verbatim>\<open>\s\<close> is given on that range (tab, line feed, vertical tab, form feed, carriage
  return, space, no-break space).
\<close>

definition is_space :: "char \<Rightarrow> bool" where
  "is_space c \<longleftrightarrow> c \<in> set [CHR 0x09, CHR 0x0A, CHR 0x0B, CHR 0x0C, CHR 0x0D, CHR 0x20, CHR 0xA0]"

text \<open>
  \<^verbatim>\<open>s.split(/\s+/)\<close>: the pieces between maximal runs of white space. A run at the start
  or at the end leaves an empty piece there, and the empty string gives one empty piece.
\<close>

fun js_split_ws :: "string \<Rightarrow> string list" where
  "js_split_ws [] = [[]]"
| "js_split_ws (c # cs) =
     (if is_space c then
        (case cs of
           [] \<Rightarrow> [[], []]
         | d # _ \<Rightarrow> if is_space d then js_split_ws cs else [] # js_split_ws cs)
      else
        (case js_split_ws cs of
           [] \<Rightarrow> [[c]]
         | p # ps \<Rightarrow> (c # p) # ps))"

text \<open>\<^verbatim>\<open>.filter(Boolean)\<close> on strings keeps the non-empty ones.\<close>

definition filter_Boolean :: "string list \<Rightarrow> string list" where
  "filter_Boolean ws = filter (\<lambda>w. w \<noteq> []) ws"

text \<open>
  The bitwise operators of JavaScript work on 32-bit two's complement integers:
  both operands go through ToInt32, a shift count is taken modulo 32, and the result is
  read back as a signed 32-bit integer.
\<close>

definition js_shl :: "int \<Rightarrow> int \<Rightarrow> int" where
  "js_shl a b = sint (push_bit (unat ((word_of_int b :: 32 word) AND 31)) (word_of_int a :: 32 word))"

definition js_sar :: "int \<Rightarrow> int \<Rightarrow> int" where
  "js_sar a b = sint (signed_drop_bit (unat ((word_of_int b :: 32 word) AND 31)) (word_of_int a :: 32 word))"

definition js_and :: "int \<Rightarrow> int \<Rightarrow> int" where
  "js_and a b = sint ((word_of_int a :: 32 word) AND (word_of_int b :: 32 word))"

text \<open>
  \<^verbatim>\<open>Set.prototype.add\<close>: a set keeps its members in the order of their first insertion,
  which is the order \<^verbatim>\<open>Array.from\<close> reads them in.
\<close>

definition set_add :: "'a list \<Rightarrow> 'a \<Rightarrow> 'a list" where
  "set_add s x = (if x \<in> set s then s else s @ [x])"

section \<open>Query variation generator\<close>

text \<open>
  The inner loop of \<^verbatim>\<open>generateQueryVariations\<close>: starting from \<^verbatim>\<open>words[0]\<close>, for
  \<^verbatim>\<open>j = 0 .. numSpaces - 1\<close> append a space when \<^verbatim>\<open>(i >> j) & 1\<close> is truthy, then
  append \<^verbatim>\<open>words[j + 1]\<close>. The function is only called with at least two words, so every
  index is in range.
\<close>

definition currentVariation :: "string list \<Rightarrow> int \<Rightarrow> string" where
  "currentVariation words i =
     fold (\<lambda>j cur. (if js_and (js_sar i (int j)) 1 \<noteq> 0 then cur @ '' '' else cur) @ words ! (j + 1))
          [0 ..< length words - 1] (words ! 0)"

definition generateQueryVariations :: "string \<Rightarrow> string list" where
  "generateQueryVariations keyword =
     (let words = filter_Boolean (js_split_ws keyword) in
      if length words \<le> 1 then [keyword]
      else
        let numSpaces = int (length words) - 1;
            bound = js_shl 1 numSpaces
        in fold (\<lambda>i variations. set_add variations (currentVariation words i))
                (map int [0 ..< nat bound]) [])"

text \<open>
  The spacing variations as the specification describes them: one truth value for each
  pair of adjacent words, a space between the two words when it is true, nothing when it
  is false.
\<close>

fun spacing :: "string list \<Rightarrow> bool list \<Rightarrow> string" where
  "spacing [] bs = []"
| "spacing [w] bs = w"
| "spacing (w # v # ws) [] = w @ spacing (v # ws) []"
| "spacing (w # v # ws) (b # bs) = w @ (if b then '' '' else []) @ spacing (v # ws) bs"

section \<open>Numbers read from strings\<close>

definition is_digit :: "char \<Rightarrow> bool" where
  "is_digit c \<longleftrightarrow> 48 \<le> (of_char c :: nat) \<and> (of_char c :: nat) \<le> 57"

definition digits_value :: "string \<Rightarrow> nat" where
  "digits_value ds = foldl (\<lambda>a c. 10 * a + ((of_char c :: nat) - 48)) 0 ds"

text \<open>
  An optional sign in front of a numeric literal, as \<^verbatim>\<open>parseInt\<close> and \<^verbatim>\<open>parseFloat\<close>
  read it: the factor and the rest of the string.
\<close>

definition read_sign :: "string \<Rightarrow> int \<times> string" where
  "read_sign t =
     (case t of
        [] \<Rightarrow> (1, [])
      | c # r \<Rightarrow> if c = CHR ''-'' then (- 1, r) else if c = CHR ''+'' then (1, r) else (1, t))"

text \<open>
  \<^verbatim>\<open>parseInt(s, 10)\<close>: leading white space is skipped, then an optional sign, then the
  longest run of decimal digits; \<open>None\<close> is \<^verbatim>\<open>NaN\<close> (no digit found). The value is the exact
  integer (a double holds it exactly below \<open>2^53\<close>).
\<close>

definition parseInt :: "string \<Rightarrow> int option" where
  "parseInt s =
     (let (sign, u) = read_sign (dropWhile is_space s);
          ds = takeWhile is_digit u
      in if ds = [] then None else Some (sign * int (digits_value ds)))"

text \<open>
  \<^verbatim>\<open>setTimeout(f, ms)\<close> in a browser: the delay is converted to a signed 32-bit integer
  (\<^verbatim>\<open>NaN\<close> becomes 0, other values wrap) and a negative delay counts as 0.
\<close>

definition setTimeout_delay :: "int option \<Rightarrow> nat" where
  "setTimeout_delay ms =
     (case ms of
        None \<Rightarrow> 0
      | Some v \<Rightarrow> (let w = sint (word_of_int v :: 32 word) in if w < 0 then 0 else nat w))"

text \<open>\<^verbatim>\<open>s.indexOf(pat)\<close>: the first position where \<open>pat\<close> occurs in \<open>s\<close>, or \<open>-1\<close>.\<close>

fun indexOf_from :: "nat \<Rightarrow> string \<Rightarrow> string \<Rightarrow> int" where
  "indexOf_from k [] pat = (if pat = [] then int k else - 1)"
| "indexOf_from k (c # cs) pat =
     (if take (length pat) (c # cs) = pat then int k else indexOf_from (Suc k) cs pat)"

definition indexOf :: "string \<Rightarrow> string \<Rightarrow> int" where
  "indexOf s pat = indexOf_from 0 s pat"

section \<open>Resilient request client: \<^verbatim>\<open>slackFetch\<close>\<close>

text \<open>
  What the client sees of one HTTP response: the status, the two headers it reads
  (\<open>None\<close> when \<^verbatim>\<open>headers.get\<close> returns \<^verbatim>\<open>null\<close>), and the body as \<^verbatim>\<open>response.json()\<close>
  parses it (\<open>None\<close> when the body is not JSON): Slack's envelope with its \<^verbatim>\<open>ok\<close> flag,
  its \<^verbatim>\<open>error\<close> code and the rest of the payload.
\<close>

datatype 'd envelope = Envelope (ok: bool) (error_code: string) (payload: 'd)

record 'd http_response =
  status :: nat
  retry_after :: "string option"
  content_type :: "string option"
  json :: "'d envelope option"

text \<open>
  The errors a call can end with. The first four are thrown by \<^verbatim>\<open>slackFetch\<close> itself
  (rate limit exhausted, \<^verbatim>\<open>ok\<close> false with Slack's error code, a response that is not
  JSON, the fallback after the loop); the others are rejections of the platform:
  \<^verbatim>\<open>fetch\<close> aborted by the signal (an error named \<^verbatim>\<open>AbortError\<close>), \<^verbatim>\<open>fetch\<close> failing
  on the network, \<^verbatim>\<open>response.json()\<close> failing to parse, and a \<^verbatim>\<open>TypeError\<close>.
\<close>

datatype js_error =
    RateLimited
  | UpstreamRejected string
  | NonJsonResponse
  | RetriesFailed
  | AbortError
  | FetchFailed
  | JsonSyntaxError
  | TypeError

text \<open>
  One exchange with the network: how long the response takes (in milliseconds) and what
  comes back. The network is a function from the number of the request (0 for the first
  \<^verbatim>\<open>fetch\<close> of a call) to its exchange. Time is a clock in milliseconds; the abort signal
  is the time at which it fires (\<open>None\<close>: no signal was passed, or it never fires).
\<close>

datatype 'd fetch_outcome = Responds "'d http_response" | Fails

record 'd exchange =
  latency :: nat
  outcome :: "'d fetch_outcome"

text \<open>
  \<^verbatim>\<open>await fetch(url, {..., signal})\<close> called at time \<open>now\<close>: it rejects at once when the
  signal has already fired, rejects at the time of the signal when that comes before the
  response, and otherwise settles when the response arrives. The result is the time at
  which the caller resumes and what it resumes with.
\<close>

definition fetch :: "nat option \<Rightarrow> nat \<Rightarrow> 'd exchange \<Rightarrow> nat \<times> (js_error + 'd http_response)" where
  "fetch signal now x =
     (let settled = (now + latency x,
                     case outcome x of Responds r \<Rightarrow> Inr r | Fails \<Rightarrow> Inl FetchFailed)
      in case signal of
           None \<Rightarrow> settled
         | Some c \<Rightarrow>
             if c \<le> now then (now, Inl AbortError)
             else if c < now + latency x then (c, Inl AbortError)
             else settled)"

text \<open>
  \<^verbatim>\<open>parseInt(response.headers.get('Retry-After') || '1', 10)\<close>, times 1000, as the delay
  \<^verbatim>\<open>setTimeout\<close> makes of it: the length of the backoff sleep in milliseconds.
\<close>

definition retryAfterSeconds :: "'d http_response \<Rightarrow> int option" where
  "retryAfterSeconds r =
     parseInt (case retry_after r of None \<Rightarrow> ''1'' | Some h \<Rightarrow> if h = [] then ''1'' else h)"

definition backoff_ms :: "'d http_response \<Rightarrow> nat" where
  "backoff_ms r = setTimeout_delay (map_option (\<lambda>s. s * 1000) (retryAfterSeconds r))"

text \<open>What a call leaves behind: its result, the time it settles, the number of
  \<^verbatim>\<open>fetch\<close> calls it made, and the backoff sleeps it went through, in order.\<close>

record 'd run =
  result :: "js_error + 'd envelope"
  finished :: nat
  requests :: nat
  sleeps :: "nat list"

text \<open>
  The body of \<^verbatim>\<open>slackFetch\<close> after a response that is not a 429: the content type must
  be present and mention \<^verbatim>\<open>application/json\<close>, the body must parse, and \<^verbatim>\<open>ok\<close> must hold.
\<close>

definition read_response :: "'d http_response \<Rightarrow> js_error + 'd envelope" where
  "read_response r =
     (if (case content_type r of
            None \<Rightarrow> False
          | Some ct \<Rightarrow> ct \<noteq> [] \<and> indexOf ct ''application/json'' \<noteq> - 1)
      then (case json r of
              None \<Rightarrow> Inl JsonSyntaxError
            | Some data \<Rightarrow> if \<not> ok data then Inl (UpstreamRejected (error_code data)) else Inr data)
      else Inl NonJsonResponse)"

text \<open>
  The loop \<^verbatim>\<open>while (retries > 0)\<close>. Its state is the counter \<open>retries\<close>, the clock, the
  number of requests made so far and the sleeps so far. Every iteration builds the same
  request (URL, bearer token, query string or form body), which the model leaves out: the
  network answers by the number of the request. The backoff sleep
  \<^verbatim>\<open>await new Promise(resolve => setTimeout(resolve, ...))\<close> takes its full delay: the
  signal is passed to \<^verbatim>\<open>fetch\<close> only. Reading the body of a response takes no time.
\<close>

function slackFetch_loop ::
  "(nat \<Rightarrow> 'd exchange) \<Rightarrow> nat option \<Rightarrow> int \<Rightarrow> nat \<Rightarrow> nat \<Rightarrow> nat list \<Rightarrow> 'd run" where
  "slackFetch_loop net signal retries now n slept =
     (if retries > 0 then
        (case fetch signal now (net n) of
           (t, Inl e) \<Rightarrow> \<lparr>result = Inl e, finished = t, requests = n + 1, sleeps = slept\<rparr>
         | (t, Inr response) \<Rightarrow>
             if status response = 429 then
               (if retries - 1 \<le> 0 then
                  \<lparr>result = Inl RateLimited, finished = t, requests = n + 1, sleeps = slept\<rparr>
                else
                  slackFetch_loop net signal (retries - 1) (t + backoff_ms response) (n + 1)
                    (slept @ [backoff_ms response]))
             else
               \<lparr>result = read_response response, finished = t, requests = n + 1, sleeps = slept\<rparr>)
      else \<lparr>result = Inl RetriesFailed, finished = now, requests = n, sleeps = slept\<rparr>)"
  by pat_completeness auto
termination
  by (relation "measure (\<lambda>(net, signal, retries, now, n, slept). nat retries)") auto

definition slackFetch :: "(nat \<Rightarrow> 'd exchange) \<Rightarrow> nat option \<Rightarrow> nat \<Rightarrow> 'd run" where
  "slackFetch net signal now = slackFetch_loop net signal 5 now 0 []"

section \<open>Messages and the two Slack endpoints\<close>

text \<open>
  A message as the search and the thread endpoint deliver it, with the fields the code
  reads: \<^verbatim>\<open>permalink\<close>, \<^verbatim>\<open>ts\<close>, \<^verbatim>\<open>thread_ts\<close> and \<^verbatim>\<open>reply_count\<close> (both may be
  missing) and \<^verbatim>\<open>channel.id\<close>.
\<close>

record message =
  permalink :: string
  ts :: string
  thread_ts :: "string option"
  reply_count :: "int option"
  channel_id :: string
  msg_text :: string

datatype paging = Paging (pages: "int option")

datatype search_result = SearchResult (matches: "message list option") (paging: "paging option")

datatype search_data = SearchData (messages: "search_result option")

datatype replies_data = RepliesData (thread_messages: "message list option")

text \<open>
  The outcome of \<^verbatim>\<open>slackFetch('search.messages', ...)\<close> as a function of the query and the
  page, and of \<^verbatim>\<open>slackFetch('conversations.replies', ...)\<close> as a function of the channel and
  the thread timestamp: the data returned, or the error thrown.
\<close>

record slack_api =
  search_messages :: "string \<Rightarrow> int \<Rightarrow> js_error + search_data"
  conversations_replies :: "string \<Rightarrow> string \<Rightarrow> js_error + replies_data"

record search_params =
  keyword :: string
  startDate :: string
  endDate :: string
  channels :: "string list"

section \<open>Paginated search executor: \<^verbatim>\<open>performSearch\<close>\<close>

text \<open>
  \<^verbatim>\<open>if (data.messages && data.messages.matches) allMessages = allMessages.concat(...)\<close>:
  the matches a page adds (an array is truthy also when empty).
\<close>

definition page_matches :: "search_data \<Rightarrow> message list" where
  "page_matches data =
     (case messages data of
        None \<Rightarrow> []
      | Some r \<Rightarrow> (case matches r of None \<Rightarrow> [] | Some ms \<Rightarrow> ms))"

text \<open>
  \<^verbatim>\<open>hasMore = data.messages?.paging ? page < data.messages.paging.pages : false\<close>; a
  comparison with a missing \<^verbatim>\<open>pages\<close> is false.
\<close>

definition hasMore :: "search_data \<Rightarrow> int \<Rightarrow> bool" where
  "hasMore data page =
     (case messages data of
        None \<Rightarrow> False
      | Some r \<Rightarrow>
          (case paging r of
             None \<Rightarrow> False
           | Some pg \<Rightarrow> (case pages pg of None \<Rightarrow> False | Some n \<Rightarrow> page < n)))"

text \<open>
  The loop \<^verbatim>\<open>while (hasMore)\<close>, with the pages requested so far as a trace. It ends when
  a request throws or \<open>hasMore\<close> becomes false; an upstream that always reports more pages
  keeps it running, which is the value \<open>None\<close>.
\<close>

partial_function (option) performSearch_loop ::
  "slack_api \<Rightarrow> string \<Rightarrow> message list \<Rightarrow> int \<Rightarrow> int list \<Rightarrow> (int list \<times> (js_error + message list)) option" where
  "performSearch_loop api query allMessages page requested =
     (case search_messages api query page of
        Inl e \<Rightarrow> Some (requested @ [page], Inl e)
      | Inr data \<Rightarrow>
          if hasMore data page
          then performSearch_loop api query (allMessages @ page_matches data) (page + 1) (requested @ [page])
          else Some (requested @ [page], Inr (allMessages @ page_matches data)))"

declare performSearch_loop.simps [code]

definition performSearch_trace :: "slack_api \<Rightarrow> string \<Rightarrow> (int list \<times> (js_error + message list)) option" where
  "performSearch_trace api query = performSearch_loop api query [] 1 []"

definition performSearch :: "slack_api \<Rightarrow> string \<Rightarrow> (js_error + message list) option" where
  "performSearch api query = map_option snd (performSearch_trace api query)"

section \<open>Promises and maps\<close>

text \<open>
  \<^verbatim>\<open>await Promise.all(promises)\<close>: the values in order when all promises fulfil, the
  rejection when one rejects. When several reject, the one that comes first in time wins;
  the model takes the first in the list. \<open>Promise_all_pending\<close> is the same for promises
  that may stay pending for ever (\<open>None\<close>): a rejection still settles the whole.
\<close>

fun Promise_all :: "(js_error + 'a) list \<Rightarrow> js_error + 'a list" where
  "Promise_all [] = Inr []"
| "Promise_all (Inl e # ps) = Inl e"
| "Promise_all (Inr v # ps) = (case Promise_all ps of Inl e \<Rightarrow> Inl e | Inr vs \<Rightarrow> Inr (v # vs))"

fun Promise_all_pending :: "(js_error + 'a) option list \<Rightarrow> (js_error + 'a list) option" where
  "Promise_all_pending [] = Some (Inr [])"
| "Promise_all_pending (Some (Inl e) # ps) = Some (Inl e)"
| "Promise_all_pending (Some (Inr v) # ps) =
     (case Promise_all_pending ps of
        None \<Rightarrow> None
      | Some (Inl e) \<Rightarrow> Some (Inl e)
      | Some (Inr vs) \<Rightarrow> Some (Inr (v # vs)))"
| "Promise_all_pending (None # ps) =
     (case Promise_all_pending ps of
        Some (Inl e) \<Rightarrow> Some (Inl e)
      | _ \<Rightarrow> None)"

text \<open>
  A JavaScript \<^verbatim>\<open>Map\<close> is a list of entries in insertion order with distinct keys.
  \<^verbatim>\<open>set\<close> on a key that is present replaces the value and keeps the entry's place;
  \<^verbatim>\<open>new Map(entries)\<close> sets the entries one after the other; \<^verbatim>\<open>values()\<close> reads the
  values in insertion order.
\<close>

fun Map_set :: "('k \<times> 'v) list \<Rightarrow> 'k \<Rightarrow> 'v \<Rightarrow> ('k \<times> 'v) list" where
  "Map_set [] k v = [(k, v)]"
| "Map_set ((k', v') # es) k v = (if k' = k then (k', v) # es else (k', v') # Map_set es k v)"

definition new_Map :: "('k \<times> 'v) list \<Rightarrow> ('k \<times> 'v) list" where
  "new_Map entries = fold (\<lambda>(k, v) m. Map_set m k v) entries []"

definition Map_values :: "('k \<times> 'v) list \<Rightarrow> 'v list" where
  "Map_values m = map snd m"

definition Map_has :: "('k \<times> 'v) list \<Rightarrow> 'k \<Rightarrow> bool" where
  "Map_has m k \<longleftrightarrow> k \<in> fst ` set m"

section \<open>Federated search and thread reconstruction: \<^verbatim>\<open>searchMessages\<close>\<close>

text \<open>One variation of the keyword: a search per channel when channels are given, one
  unrestricted search otherwise.\<close>

definition variationSearch :: "slack_api \<Rightarrow> search_params \<Rightarrow> string \<Rightarrow> (js_error + message list) option" where
  "variationSearch api params variation =
     (let baseQuery = variation @ '' after:'' @ startDate params @ '' before:'' @ endDate params in
      if length (channels params) > 0 then
        (case Promise_all_pending
                (map (\<lambda>channelId. performSearch api (baseQuery @ '' in:'' @ channelId)) (channels params)) of
           None \<Rightarrow> None
         | Some (Inl e) \<Rightarrow> Some (Inl e)
         | Some (Inr results) \<Rightarrow> Some (Inr (concat results)))
      else performSearch api baseQuery)"

text \<open>\<^verbatim>\<open>Array.from(new Map(allSearchResults.map(msg => [msg.permalink, msg])).values())\<close>\<close>

definition uniqueMessages :: "message list \<Rightarrow> message list" where
  "uniqueMessages allSearchResults =
     Map_values (new_Map (map (\<lambda>msg. (permalink msg, msg)) allSearchResults))"

text \<open>Truthiness of an optional string (\<^verbatim>\<open>msg.thread_ts\<close>) and \<^verbatim>\<open>msg.reply_count > 0\<close>,
  which is false when the count is missing.\<close>

definition truthy :: "string option \<Rightarrow> bool" where
  "truthy s = (case s of None \<Rightarrow> False | Some t \<Rightarrow> t \<noteq> [])"

definition has_replies :: "message \<Rightarrow> bool" where
  "has_replies msg = (case reply_count msg of None \<Rightarrow> False | Some n \<Rightarrow> n > 0)"

text \<open>
  The map \<^verbatim>\<open>threadTsToFetch\<close> from a thread timestamp to a channel id, filled by the
  \<^verbatim>\<open>forEach\<close> over the unique messages.
\<close>

definition threadTsToFetch :: "message list \<Rightarrow> (string \<times> string) list" where
  "threadTsToFetch msgs =
     fold (\<lambda>msg m.
             (case thread_ts msg of
                Some t \<Rightarrow>
                  if t \<noteq> [] then Map_set m t (channel_id msg)
                  else if has_replies msg then Map_set m (ts msg) (channel_id msg)
                  else m
              | None \<Rightarrow>
                  if has_replies msg then Map_set m (ts msg) (channel_id msg)
                  else m))
          msgs []"

text \<open>
  One thread fetch with its handlers: \<^verbatim>\<open>.then(data => data.messages || [])\<close> and the
  \<^verbatim>\<open>catch\<close> that rethrows an \<^verbatim>\<open>AbortError\<close> and turns any other error into \<open>[]\<close>.
\<close>

definition threadFetch :: "slack_api \<Rightarrow> string \<times> string \<Rightarrow> js_error + message list" where
  "threadFetch api entry =
     (case entry of (t, channelId) \<Rightarrow>
        (case conversations_replies api channelId t of
           Inr data \<Rightarrow> Inr (case thread_messages data of None \<Rightarrow> [] | Some ms \<Rightarrow> ms)
         | Inl err \<Rightarrow> if err = AbortError then Inl err else Inr []))"

text \<open>The filter \<^verbatim>\<open>msg => !msg.thread_ts && !(msg.reply_count > 0)\<close>.\<close>

definition is_standalone :: "message \<Rightarrow> bool" where
  "is_standalone msg \<longleftrightarrow> \<not> truthy (thread_ts msg) \<and> \<not> has_replies msg"

definition standaloneMessages :: "message list \<Rightarrow> message list" where
  "standaloneMessages msgs = filter is_standalone msgs"

text \<open>\<^verbatim>\<open>Array.from(new Map(allMessages.map(msg => [msg.ts, msg])).values())\<close>\<close>

definition finalUniqueMessages :: "message list \<Rightarrow> message list" where
  "finalUniqueMessages allMessages = Map_values (new_Map (map (\<lambda>msg. (ts msg, msg)) allMessages))"

text \<open>\<^verbatim>\<open>msg.thread_ts || msg.ts\<close>\<close>

definition threadKey :: "message \<Rightarrow> string" where
  "threadKey msg = (case thread_ts msg of None \<Rightarrow> ts msg | Some t \<Rightarrow> if t \<noteq> [] then t else ts msg)"

text \<open>
  The grouping loop: a key that is new gets an empty array, then the message is pushed
  onto the array of its key.
\<close>

definition Map_push :: "(string \<times> message list) list \<Rightarrow> string \<Rightarrow> message \<Rightarrow> (string \<times> message list) list" where
  "Map_push m k msg = map (\<lambda>(k', ms). if k' = k then (k', ms @ [msg]) else (k', ms)) m"

definition groupByThread :: "message list \<Rightarrow> (string \<times> message list) list" where
  "groupByThread msgs =
     fold (\<lambda>msg threads.
             Map_push (if \<not> Map_has threads (threadKey msg) then Map_set threads (threadKey msg) []
                       else threads)
                      (threadKey msg) msg)
          msgs []"

text \<open>
  Numbers are IEEE-754 doubles. A finite double is an integer of at most 53 bits times a
  power of two with an exponent from \<open>-1074\<close> to 971, here a rational number. The next
  definitions round a positive fraction \<open>a / b\<close> to the nearest double, ties to the even
  significand, as the engines do when they read a decimal literal.

  \<open>exponent_up a b\<close> counts how often \<open>b\<close> can be doubled without passing \<open>a\<close>, and
  \<open>exponent_down a b\<close> how often \<open>a\<close> must be doubled to reach \<open>b\<close>; so
  \<open>binary_exponent a b\<close> is the \<open>e\<close> with \<open>2^e \<le> a / b < 2^(e + 1)\<close>.
\<close>

function exponent_up :: "nat \<Rightarrow> nat \<Rightarrow> nat" where
  "exponent_up a b = (if 0 < b \<and> 2 * b \<le> a then Suc (exponent_up a (2 * b)) else 0)"
  by pat_completeness auto
termination
  by (relation "measure (\<lambda>(a, b). a - b)") auto

function exponent_down :: "nat \<Rightarrow> nat \<Rightarrow> nat" where
  "exponent_down a b = (if 0 < a \<and> a < b then Suc (exponent_down (2 * a) b) else 0)"
  by pat_completeness auto
termination
  by (relation "measure (\<lambda>(a, b). b - a)") auto

definition binary_exponent :: "nat \<Rightarrow> nat \<Rightarrow> int" where
  "binary_exponent a b = (if b \<le> a then int (exponent_up a b) else - int (exponent_down a b))"

text \<open>The integer nearest to \<open>a / b\<close>, the even one of the two when \<open>a / b\<close> lies half way.\<close>

definition round_half_even :: "nat \<Rightarrow> nat \<Rightarrow> nat" where
  "round_half_even a b =
     (let f = a div b; r = a mod b
      in if 2 * r < b then f
         else if b < 2 * r then f + 1
         else if even f then f
         else f + 1)"

text \<open>
  The double nearest to \<open>a / b\<close>. The unit of the significand is \<open>2^q\<close> with
  \<open>q = e - 52\<close> for the binary exponent \<open>e\<close>, and not below \<open>-1074\<close> (the subnormal
  numbers). A result of \<open>2^1024\<close> or more is \<^verbatim>\<open>Infinity\<close>, for which the value
  \<open>double_infinity\<close> stands: it is above every finite double.
\<close>

definition double_infinity :: rat where
  "double_infinity = 2 ^ 1024"

definition to_double :: "nat \<Rightarrow> nat \<Rightarrow> rat" where
  "to_double a b =
     (if a = 0 \<or> b = 0 then 0
      else
        let e = binary_exponent a b;
            q = max (e - 52) (- 1074);
            n = (if 0 \<le> q then round_half_even a (b * 2 ^ nat q)
                 else round_half_even (a * 2 ^ nat (- q)) b)
        in if 1023 < e \<or> (e = 1023 \<and> n = 2 ^ 53) then double_infinity
           else if 0 \<le> q then of_nat n * 2 ^ nat q
           else of_nat n / 2 ^ nat (- q))"

text \<open>The digits before the point of a decimal literal, and the digits after it.\<close>

definition integer_digits :: "string \<Rightarrow> string" where
  "integer_digits u = takeWhile is_digit u"

definition fraction_digits :: "string \<Rightarrow> string" where
  "fraction_digits u =
     (case dropWhile is_digit u of
        [] \<Rightarrow> []
      | c # r \<Rightarrow> if c = CHR ''.'' then takeWhile is_digit r else [])"

text \<open>
  What follows the digits of a decimal literal, and the exponent that is read there: an
  \<^verbatim>\<open>e\<close> or \<^verbatim>\<open>E\<close>, an optional sign and digits. Without digits there is no exponent
  part, and the exponent is 0.
\<close>

definition literal_rest :: "string \<Rightarrow> string" where
  "literal_rest u =
     (case dropWhile is_digit u of
        [] \<Rightarrow> []
      | c # r \<Rightarrow> if c = CHR ''.'' then dropWhile is_digit r else c # r)"

definition exponent_part :: "string \<Rightarrow> int" where
  "exponent_part r =
     (case r of
        [] \<Rightarrow> 0
      | c # t \<Rightarrow>
          if c = CHR ''e'' \<or> c = CHR ''E''
          then (let (sign, v) = read_sign t; ds = takeWhile is_digit v
                in if ds = [] then 0 else sign * int (digits_value ds))
          else 0)"

text \<open>
  \<^verbatim>\<open>parseFloat(s)\<close>: leading white space is skipped, then the longest prefix that is a
  decimal literal is read: an optional sign, then \<^verbatim>\<open>Infinity\<close>, or digits with
  optionally a point and more digits (digits on at least one side of the point) and
  optionally an exponent part. \<open>None\<close> is \<^verbatim>\<open>NaN\<close> (no literal found). The result is the
  double nearest to the number that the literal denotes, as V8, SpiderMonkey and
  JavaScriptCore compute it (the standard lets an engine round a literal of more than 20
  significant digits after its 20th digit). The sign of a zero is not kept.
\<close>

definition parseFloat :: "string \<Rightarrow> rat option" where
  "parseFloat s =
     (let (sign, u) = read_sign (dropWhile is_space s);
          ip = integer_digits u;
          fp = fraction_digits u;
          x = exponent_part (literal_rest u)
      in if take 8 u = ''Infinity'' then Some (of_int sign * double_infinity)
         else if ip = [] \<and> fp = [] then None
         else Some (of_int sign * to_double (digits_value (ip @ fp) * 10 ^ nat x)
                                            (10 ^ length fp * 10 ^ nat (- x))))"

text \<open>
  The difference of two doubles. \<^verbatim>\<open>Infinity - Infinity\<close> is \<^verbatim>\<open>NaN\<close>. Otherwise the
  machine rounds the difference to a double, which has the sign of the exact difference;
  the sort reads nothing but that sign, and the model keeps the exact difference.
\<close>

definition js_minus :: "rat \<Rightarrow> rat \<Rightarrow> rat option" where
  "js_minus x y = (if x = y \<and> \<bar>x\<bar> = double_infinity then None else Some (x - y))"

text \<open>The comparator \<^verbatim>\<open>(a, b) => parseFloat(a.ts) - parseFloat(b.ts)\<close>.\<close>

definition compare_ts :: "message \<Rightarrow> message \<Rightarrow> rat option" where
  "compare_ts a b =
     (case (parseFloat (ts a), parseFloat (ts b)) of
        (Some x, Some y) \<Rightarrow> js_minus x y
      | _ \<Rightarrow> None)"

text \<open>
  \<^verbatim>\<open>Array.prototype.sort(comparefn)\<close>: a stable sort; a comparator result of \<^verbatim>\<open>NaN\<close>
  counts as 0. With a consistent comparator every stable sort gives the same array; the
  model is insertion from the right.
\<close>

fun sort_insert :: "('a \<Rightarrow> 'a \<Rightarrow> rat option) \<Rightarrow> 'a \<Rightarrow> 'a list \<Rightarrow> 'a list" where
  "sort_insert cmp x [] = [x]"
| "sort_insert cmp x (y # ys) =
     (if (case cmp x y of None \<Rightarrow> 0 | Some v \<Rightarrow> v) \<le> 0 then x # y # ys
      else y # sort_insert cmp x ys)"

definition js_sort :: "('a \<Rightarrow> 'a \<Rightarrow> rat option) \<Rightarrow> 'a list \<Rightarrow> 'a list" where
  "js_sort cmp xs = foldr (sort_insert cmp) xs []"

text \<open>
  A conversation is the parent message with its \<^verbatim>\<open>replies\<close> property set. The callback
  of \<^verbatim>\<open>threads.values().map\<close> sorts a group, takes its first message as the parent and
  the rest as its replies; on an empty group the assignment to \<^verbatim>\<open>parent.replies\<close> would
  throw a \<^verbatim>\<open>TypeError\<close>.
\<close>

record conversation =
  root :: message
  replies :: "message list"

definition formatThread :: "message list \<Rightarrow> js_error + conversation" where
  "formatThread threadMessages =
     (case js_sort compare_ts threadMessages of
        [] \<Rightarrow> Inl TypeError
      | parent # rest \<Rightarrow> Inr \<lparr>root = parent, replies = rest\<rparr>)"

text \<open>
  The second half of \<^verbatim>\<open>searchMessages\<close>, from the unique messages on: thread fetches,
  merge with the standalone messages, deduplication by \<^verbatim>\<open>ts\<close>, grouping, formatting and
  the final sort by the parent's timestamp.
\<close>

definition thread_fetch_calls :: "message list \<Rightarrow> (string \<times> string) list" where
  "thread_fetch_calls msgs = threadTsToFetch msgs"

definition reconstruct :: "slack_api \<Rightarrow> message list \<Rightarrow> js_error + conversation list" where
  "reconstruct api msgs =
     (case Promise_all (map (threadFetch api) (thread_fetch_calls msgs)) of
        Inl e \<Rightarrow> Inl e
      | Inr fetched \<Rightarrow>
          (let fetchedThreads = concat fetched;
               allMessages = standaloneMessages msgs @ fetchedThreads;
               threads = groupByThread (finalUniqueMessages allMessages)
           in case Promise_all (map formatThread (Map_values threads)) of
                Inl e \<Rightarrow> Inl e
              | Inr conversations \<Rightarrow> Inr (js_sort (\<lambda>a b. compare_ts (root a) (root b)) conversations)))"

text \<open>The first half of \<^verbatim>\<open>searchMessages\<close>: the searches of all variations, flattened
  and deduplicated by permalink.\<close>

definition federatedSearch :: "slack_api \<Rightarrow> search_params \<Rightarrow> (js_error + message list) option" where
  "federatedSearch api params =
     (case Promise_all_pending
             (map (variationSearch api params) (generateQueryVariations (keyword params))) of
        None \<Rightarrow> None
      | Some (Inl e) \<Rightarrow> Some (Inl e)
      | Some (Inr resultsByVariation) \<Rightarrow> Some (Inr (uniqueMessages (concat resultsByVariation))))"

definition searchMessages :: "slack_api \<Rightarrow> search_params \<Rightarrow> (js_error + conversation list) option" where
  "searchMessages api params =
     (case federatedSearch api params of
        None \<Rightarrow> None
      | Some (Inl e) \<Rightarrow> Some (Inl e)
      | Some (Inr msgs) \<Rightarrow> Some (reconstruct api msgs))"

section \<open>Notions used to state the properties of the reconstruction\<close>

text \<open>The members of a conversation: the parent and its replies.\<close>

definition thread_members :: "conversation \<Rightarrow> message list" where
  "thread_members c = root c # replies c"

text \<open>What one thread fetch contributes to \<^verbatim>\<open>fetchedThreads\<close>, and the array
  \<^verbatim>\<open>allMessages\<close> that results when no fetch is aborted.\<close>

definition fetched_messages :: "slack_api \<Rightarrow> string \<times> string \<Rightarrow> message list" where
  "fetched_messages api call = (case threadFetch api call of Inl e \<Rightarrow> [] | Inr ms \<Rightarrow> ms)"

definition received_messages :: "slack_api \<Rightarrow> message list \<Rightarrow> message list" where
  "received_messages api msgs =
     standaloneMessages msgs @ concat (map (fetched_messages api) (thread_fetch_calls msgs))"





text \<open>The conversation that \<open>formatThread\<close> makes of a group that is not empty.\<close>

definition conversation_of :: "message list \<Rightarrow> conversation" where
  "conversation_of ms = \<lparr>root = hd (js_sort compare_ts ms), replies = tl (js_sort compare_ts ms)\<rparr>"

section \<open>Networks and inputs used in the examples\<close>

text \<open>A network on which every request is answered: request \<open>i\<close> takes \<open>ls i\<close>
  milliseconds and brings the response \<open>rs i\<close>.\<close>

definition responding :: "(nat \<Rightarrow> nat) \<Rightarrow> (nat \<Rightarrow> 'd http_response) \<Rightarrow> nat \<Rightarrow> 'd exchange" where
  "responding ls rs i = \<lparr>latency = ls i, outcome = Responds (rs i)\<rparr>"

definition rate_limited :: "string option \<Rightarrow> string http_response" where
  "rate_limited h = \<lparr>status = 429, retry_after = h, content_type = Some ''text/plain'', json = None\<rparr>"

definition success :: "string http_response" where
  "success = \<lparr>status = 200, retry_after = None,
              content_type = Some ''application/json; charset=utf-8'',
              json = Some (Envelope True [] ''payload'')\<rparr>"

text \<open>The mock of the rate-limit test: three 429 responses, with \<^verbatim>\<open>Retry-After\<close> 2, 5 and
  absent, then a success; every response takes 100 ms.\<close>

definition three_429_then_success :: "nat \<Rightarrow> string http_response" where
  "three_429_then_success i =
     (if i = 0 then rate_limited (Some ''2'')
      else if i = 1 then rate_limited (Some ''5'')
      else if i = 2 then rate_limited None
      else success)"

definition every_100ms :: "nat \<Rightarrow> nat" where
  "every_100ms i = 100"

text \<open>A server that answers every request with a 429 and \<^verbatim>\<open>Retry-After: 30\<close>.\<close>

definition always_429 :: "nat \<Rightarrow> string http_response" where
  "always_429 i = rate_limited (Some ''30'')"

text \<open>Messages and search pages for the examples.\<close>

definition hit :: "string \<Rightarrow> string \<Rightarrow> string \<Rightarrow> message" where
  "hit p t c = \<lparr>permalink = p, ts = t, thread_ts = None, reply_count = None, channel_id = c,
               msg_text = []\<rparr>"

definition search_page :: "message list \<Rightarrow> int \<Rightarrow> search_data" where
  "search_page ms n = SearchData (Some (SearchResult (Some ms) (Some (Paging (Some n)))))"

text \<open>The mock of the pagination test: three pages, each reporting three pages in all.\<close>

definition three_pages :: "int \<Rightarrow> search_data" where
  "three_pages k =
     (if k = 1 then search_page [hit ''p1'' ''1700000001.000100'' ''C1'', hit ''p2'' ''1700000002.000100'' ''C1''] 3
      else if k = 2 then search_page [hit ''p3'' ''1700000003.000100'' ''C1''] 3
      else search_page [hit ''p4'' ''1700000004.000100'' ''C1''] 3)"

definition three_pages_api :: slack_api where
  "three_pages_api =
     \<lparr>search_messages = (\<lambda>query page. Inr (three_pages page)),
      conversations_replies = (\<lambda>channel t. Inr (RepliesData None))\<rparr>"

text \<open>An upstream whose first page is empty while it reports two pages.\<close>

definition empty_first_page :: "int \<Rightarrow> search_data" where
  "empty_first_page k =
     (if k = 1 then search_page [] 2 else search_page [hit ''p1'' ''1700000001.000100'' ''C1''] 2)"

definition empty_first_page_api :: slack_api where
  "empty_first_page_api =
     \<lparr>search_messages = (\<lambda>query page. Inr (empty_first_page page)),
      conversations_replies = (\<lambda>channel t. Inr (RepliesData None))\<rparr>"

text \<open>A reply inside the thread with root timestamp \<open>r\<close>, and a thread root with \<open>n\<close>
  replies.\<close>

definition reply :: "string \<Rightarrow> string \<Rightarrow> string \<Rightarrow> string \<Rightarrow> message" where
  "reply p t r c = \<lparr>permalink = p, ts = t, thread_ts = Some r, reply_count = None, channel_id = c,
                   msg_text = []\<rparr>"

definition thread_root :: "string \<Rightarrow> string \<Rightarrow> int \<Rightarrow> string \<Rightarrow> message" where
  "thread_root p t n c = \<lparr>permalink = p, ts = t, thread_ts = Some t, reply_count = Some n,
                         channel_id = c, msg_text = []\<rparr>"

text \<open>An upstream that returns the same single match for every query, on one page; a
  search for a keyword of two words then finds it once per variation.\<close>

definition same_hit_api :: slack_api where
  "same_hit_api =
     \<lparr>search_messages = (\<lambda>query page. Inr (search_page [hit ''p1'' ''1700000001.000100'' ''C1''] 1)),
      conversations_replies = (\<lambda>channel t. Inr (RepliesData None))\<rparr>"

definition two_words :: search_params where
  "two_words = \<lparr>keyword = ''slack bot'', startDate = ''2024-01-01'', endDate = ''2024-02-01'',
                channels = []\<rparr>"

text \<open>Two replies found by the search that carry the same thread timestamp in two
  different channels.\<close>

definition reply_in_C1 :: message where
  "reply_in_C1 = reply ''p1'' ''1700000001.000200'' ''1700000001.000100'' ''C1''"

definition reply_in_C2 :: message where
  "reply_in_C2 = reply ''p2'' ''1700000001.000300'' ''1700000001.000100'' ''C2''"

text \<open>
  A search with a keyword of one word that finds three messages: the root of a thread in
  C1 whose fetch then fails with an error of the upstream, a reply of a second thread
  whose fetch succeeds, and a stand-alone message with an older timestamp of nine integer
  digits.
\<close>

definition one_word :: search_params where
  "one_word = \<lparr>keyword = ''deploy'', startDate = ''2024-01-01'', endDate = ''2024-02-01'',
               channels = []\<rparr>"

definition failing_thread_api :: slack_api where
  "failing_thread_api =
     \<lparr>search_messages = (\<lambda>query page.
        Inr (search_page [thread_root ''p1'' ''1700000001.000100'' 2 ''C1'',
                          reply ''p2'' ''1700000002.000200'' ''1700000002.000100'' ''C1'',
                          hit ''p3'' ''999999999.000100'' ''C1''] 1)),
      conversations_replies = (\<lambda>channel t.
        if t = ''1700000001.000100'' then Inl (UpstreamRejected ''thread_not_found'')
        else if t = ''1700000002.000100'' then
          Inr (RepliesData (Some [thread_root [] ''1700000002.000100'' 1 ''C1'',
                                  reply [] ''1700000002.000200'' ''1700000002.000100'' ''C1'']))
        else Inr (RepliesData None))\<rparr>"

text \<open>
  A search that finds a stand-alone message in C1 and a reply in C2 whose thread timestamp
  is the timestamp of that message; the thread fetch returns the reply alone.
\<close>

definition mixed_channel_api :: slack_api where
  "mixed_channel_api =
     \<lparr>search_messages = (\<lambda>query page.
        Inr (search_page [hit ''p1'' ''1700000001.000100'' ''C1'',
                          reply ''p2'' ''1700000001.000200'' ''1700000001.000100'' ''C2''] 1)),
      conversations_replies = (\<lambda>channel t.
        Inr (RepliesData (Some [reply [] ''1700000001.000200'' ''1700000001.000100'' ''C2''])))\<rparr>"


section \<open>Properties of the query variation generator\<close>

declare js_split_ws.simps [simp del]

lemma js_split_ws_not_Nil: "js_split_ws s \<noteq> []"
proof (induction s)
  case Nil
  then show ?case by (simp add: js_split_ws.simps)
next
  case (Cons c cs)
  then show ?case
    by (subst js_split_ws.simps) (auto split: list.split)
qed

lemma js_split_ws_space:
  "is_space c \<Longrightarrow> js_split_ws (c # d # cs) =
     (if is_space d then js_split_ws (d # cs) else [] # js_split_ws (d # cs))"
  by (subst js_split_ws.simps) simp

lemma js_split_ws_nonspace:
  "\<not> is_space c \<Longrightarrow> js_split_ws (c # cs) = (c # hd (js_split_ws cs)) # tl (js_split_ws cs)"
  using js_split_ws_not_Nil [of cs]
  by (subst js_split_ws.simps) (simp split: list.split)

lemma words_skip_space:
  assumes "is_space c"
  shows "filter_Boolean (js_split_ws (c # t)) = filter_Boolean (js_split_ws t)"
proof (cases t)
  case Nil
  then show ?thesis using assms by (simp add: filter_Boolean_def js_split_ws.simps)
next
  case (Cons d rest)
  then show ?thesis
    using assms by (simp add: js_split_ws_space filter_Boolean_def)
qed

lemma words_skip_spaces:
  "\<forall>c\<in>set pre. is_space c \<Longrightarrow>
   filter_Boolean (js_split_ws (pre @ s)) = filter_Boolean (js_split_ws s)"
proof (induction pre)
  case Nil
  then show ?case by simp
next
  case (Cons c pre)
  then have "filter_Boolean (js_split_ws (c # (pre @ s))) = filter_Boolean (js_split_ws (pre @ s))"
    by (intro words_skip_space) simp
  with Cons show ?case by simp
qed

lemma words_only_spaces:
  "\<forall>c\<in>set s. is_space c \<Longrightarrow> filter_Boolean (js_split_ws s) = []"
  using words_skip_spaces [of s "[]"] by (simp add: filter_Boolean_def js_split_ws.simps)

lemma split_word_prefix:
  "\<forall>c\<in>set w. \<not> is_space c \<Longrightarrow>
   js_split_ws (w @ s) = (w @ hd (js_split_ws s)) # tl (js_split_ws s)"
proof (induction w)
  case Nil
  then show ?case using js_split_ws_not_Nil [of s] by simp
next
  case (Cons c w)
  then show ?case by (simp add: js_split_ws_nonspace)
qed

lemma words_one_word:
  assumes "\<forall>c\<in>set w. \<not> is_space c" and "\<forall>c\<in>set post. is_space c"
  shows "filter_Boolean (js_split_ws (w @ post)) = (if w = [] then [] else [w])"
proof -
  have e: "filter_Boolean (js_split_ws post) = []"
    using assms(2) by (rule words_only_spaces)
  obtain p ps where ps: "js_split_ws post = p # ps"
    using js_split_ws_not_Nil [of post] by (cases "js_split_ws post") auto
  with e have "p = []" and "filter_Boolean ps = []"
    by (auto simp: filter_Boolean_def split: if_splits)
  then show ?thesis
    using split_word_prefix [OF assms(1), of post] ps by (simp add: filter_Boolean_def)
qed

text \<open>
  Claim C10. A keyword with at most one word is white space, then a run without white
  space (possibly empty), then white space. For every such keyword, the empty string and
  the strings of white space among them, \<^verbatim>\<open>generateQueryVariations\<close> returns the list whose
  only element is the keyword itself, unchanged; so the result is not empty and one search
  query is made.
\<close>

theorem generateQueryVariations_single_word:
  assumes "kw = pre @ w @ post"
    and "\<forall>c\<in>set pre. is_space c"
    and "\<forall>c\<in>set w. \<not> is_space c"
    and "\<forall>c\<in>set post. is_space c"
  shows "generateQueryVariations kw = [kw] \<and> generateQueryVariations kw \<noteq> []"
proof -
  have "filter_Boolean (js_split_ws kw) = (if w = [] then [] else [w])"
    using assms words_skip_spaces [of pre "w @ post"] words_one_word [of w post] by simp
  then have "length (filter_Boolean (js_split_ws kw)) \<le> 1"
    by simp
  then show ?thesis
    unfolding generateQueryVariations_def Let_def by (simp only: if_True) simp
qed

theorem generateQueryVariations_single_word_witness:
  "generateQueryVariations ''  slack  '' = [''  slack  '']
   \<and> generateQueryVariations [] = [[]]
   \<and> generateQueryVariations ''   '' = [''   '']"
proof -
  have 1: "''  slack  '' = ''  '' @ ''slack'' @ ''  ''" by simp
  have 2: "\<forall>c\<in>set ''  ''. is_space c" by (simp add: is_space_def)
  have 3: "\<forall>c\<in>set ''slack''. \<not> is_space c" by (simp add: is_space_def)
  have 4: "[] = [] @ [] @ ([] :: string)" by simp
  have 5: "\<forall>c\<in>set ([] :: string). is_space c" by simp
  have 6: "\<forall>c\<in>set ([] :: string). \<not> is_space c" by simp
  have 7: "''   '' = ''   '' @ [] @ []" by simp
  have 8: "\<forall>c\<in>set ''   ''. is_space c" by (simp add: is_space_def)
  show ?thesis
    using generateQueryVariations_single_word [OF 1 2 3 2]
      generateQueryVariations_single_word [OF 4 5 6 5]
      generateQueryVariations_single_word [OF 7 8 6 5]
    by blast
qed

section \<open>Properties of the resilient request client\<close>

declare slackFetch_loop.simps [simp del]


lemma requests_le:
  "requests (slackFetch_loop net signal retries now n slept) \<le> n + nat retries"
proof (induction net signal retries now n slept rule: slackFetch_loop.induct)
  case (1 net signal retries now n slept)
  show ?case
  proof (cases "retries > 0")
    case False
    then show ?thesis by (subst slackFetch_loop.simps) simp
  next
    case pos: True
    obtain t x where f: "fetch signal now (net n) = (t, x)"
      by (cases "fetch signal now (net n)")
    show ?thesis
    proof (cases x)
      case (Inl e)
      with pos f show ?thesis by (subst slackFetch_loop.simps) simp
    next
      case (Inr response)
      show ?thesis
      proof (cases "status response = 429 \<and> \<not> retries - 1 \<le> 0")
        case True
        then have "requests (slackFetch_loop net signal (retries - 1) (t + backoff_ms response) (n + 1)
                     (slept @ [backoff_ms response])) \<le> n + 1 + nat (retries - 1)"
          using "1.IH" [OF pos f [symmetric] Inr] by simp
        moreover have "n + 1 + nat (retries - 1) = n + nat retries"
          using True by arith
        ultimately have "requests (slackFetch_loop net signal (retries - 1) (t + backoff_ms response) (n + 1)
                     (slept @ [backoff_ms response])) \<le> n + nat retries"
          by simp
        with True pos f Inr show ?thesis
          by (subst slackFetch_loop.simps) simp
      next
        case False
        with pos f Inr show ?thesis
          by (subst slackFetch_loop.simps) auto
      qed
    qed
  qed
qed

lemma loop_429_retry:
  assumes "1 < retries" and "status (rs n) = 429"
  shows "slackFetch_loop (responding ls rs) None retries now n slept =
         slackFetch_loop (responding ls rs) None (retries - 1)
           (now + ls n + backoff_ms (rs n)) (n + 1) (slept @ [backoff_ms (rs n)])"
  using assms by (subst slackFetch_loop.simps) (simp add: fetch_def responding_def)

lemma loop_429_exhausted:
  assumes "retries = 1" and "status (rs n) = 429"
  shows "slackFetch_loop (responding ls rs) None retries now n slept =
         \<lparr>result = Inl RateLimited, finished = now + ls n, requests = n + 1, sleeps = slept\<rparr>"
  using assms by (subst slackFetch_loop.simps) (simp add: fetch_def responding_def)

lemma loop_other_status:
  assumes "0 < retries" and "status (rs n) \<noteq> 429"
  shows "slackFetch_loop (responding ls rs) None retries now n slept =
         \<lparr>result = read_response (rs n), finished = now + ls n, requests = n + 1, sleeps = slept\<rparr>"
  using assms by (subst slackFetch_loop.simps) (simp add: fetch_def responding_def)

lemma loop_429_retries:
  assumes "int k < retries" and "\<forall>i<k. status (rs (n + i)) = 429"
  shows "slackFetch_loop (responding ls rs) None retries now n slept =
         slackFetch_loop (responding ls rs) None (retries - int k)
           (now + (\<Sum>i<k. ls (n + i)) + (\<Sum>i<k. backoff_ms (rs (n + i)))) (n + k)
           (slept @ map (\<lambda>i. backoff_ms (rs (n + i))) [0..<k])"
  using assms
proof (induction k)
  case 0
  then show ?case by simp
next
  case (Suc k)
  then have ih: "slackFetch_loop (responding ls rs) None retries now n slept =
         slackFetch_loop (responding ls rs) None (retries - int k)
           (now + (\<Sum>i<k. ls (n + i)) + (\<Sum>i<k. backoff_ms (rs (n + i)))) (n + k)
           (slept @ map (\<lambda>i. backoff_ms (rs (n + i))) [0..<k])"
    by simp
  have "1 < retries - int k" and "status (rs (n + k)) = 429"
    using Suc.prems by simp_all
  then show ?case
    unfolding ih by (subst loop_429_retry) (simp_all add: algebra_simps)
qed

lemma sint_small:
  "0 \<le> x \<Longrightarrow> x < 2 ^ 31 \<Longrightarrow> sint (word_of_int x :: 32 word) = x"
  by (simp add: int_word_sint)

lemma is_digit_not_space: "is_digit c \<Longrightarrow> \<not> is_space c"
  by (auto simp: is_digit_def is_space_def)

lemma is_digit_not_sign: "is_digit c \<Longrightarrow> c \<noteq> CHR ''-'' \<and> c \<noteq> CHR ''+''"
  by (auto simp: is_digit_def)

lemma parseInt_digits:
  assumes "h \<noteq> []" and "\<forall>c\<in>set h. is_digit c"
  shows "parseInt h = Some (int (digits_value h))"
proof -
  obtain c cs where h: "h = c # cs" using assms(1) by (cases h) auto
  then have c: "is_digit c" using assms(2) by simp
  have dw: "dropWhile is_space h = h"
    using h c by (simp add: is_digit_not_space)
  have rs: "read_sign h = (1, h)"
    using h is_digit_not_sign [OF c] by (simp add: read_sign_def)
  have tw: "takeWhile is_digit h = h"
    using assms(2) by simp
  show ?thesis
    using assms(1) by (simp add: parseInt_def dw rs tw)
qed

lemma backoff_ms_absent: "retry_after r = None \<Longrightarrow> backoff_ms r = 1000"
  by (simp add: backoff_ms_def retryAfterSeconds_def parseInt_def read_sign_def is_space_def
      is_digit_def digits_value_def setTimeout_delay_def)

lemma backoff_ms_seconds:
  assumes "retry_after r = Some h" and "h \<noteq> []" and "\<forall>c\<in>set h. is_digit c"
    and "digits_value h * 1000 < 2 ^ 31"
  shows "backoff_ms r = digits_value h * 1000"
proof -
  have secs: "retryAfterSeconds r = Some (int (digits_value h))"
    using assms(1,2) parseInt_digits [OF assms(2,3)] by (simp add: retryAfterSeconds_def)
  have "int (digits_value h * 1000) < 2 ^ 31"
    using assms(4) by (metis of_nat_less_iff of_nat_numeral of_nat_power)
  then have small: "int (digits_value h) * 1000 < 2 ^ 31"
    by simp
  have "sint (word_of_int (int (digits_value h) * 1000) :: 32 word) = int (digits_value h) * 1000"
    using small by (intro sint_small) simp_all
  then have "setTimeout_delay (Some (int (digits_value h) * 1000)) = digits_value h * 1000"
    unfolding setTimeout_delay_def option.case Let_def by (simp only:) (simp add: nat_mult_distrib)
  then show ?thesis
    unfolding backoff_ms_def secs by simp
qed

lemma read_response_success:
  assumes "content_type r = Some ct" and "indexOf ct ''application/json'' \<noteq> - 1"
    and "json r = Some data" and "ok data"
  shows "read_response r = Inr data"
proof -
  have "ct \<noteq> []"
    using assms(2) by (auto simp: indexOf_def)
  then show ?thesis
    using assms by (simp add: read_response_def)
qed

lemma slackFetch_answered:
  assumes "k \<le> 4" and "\<forall>i<k. status (rs i) = 429" and "status (rs k) \<noteq> 429"
  shows "slackFetch (responding ls rs) None now =
           \<lparr>result = read_response (rs k),
            finished = now + (\<Sum>i\<le>k. ls i) + (\<Sum>i<k. backoff_ms (rs i)),
            requests = k + 1,
            sleeps = map (\<lambda>i. backoff_ms (rs i)) [0..<k]\<rparr>"
proof -
  have "slackFetch (responding ls rs) None now =
        slackFetch_loop (responding ls rs) None (5 - int k)
          (now + (\<Sum>i<k. ls i) + (\<Sum>i<k. backoff_ms (rs i))) k
          (map (\<lambda>i. backoff_ms (rs i)) [0..<k])"
    unfolding slackFetch_def
    using loop_429_retries [of k 5 rs 0 ls now "[]"] assms(1,2) by simp
  also have "\<dots> = \<lparr>result = read_response (rs k),
            finished = now + (\<Sum>i<k. ls i) + (\<Sum>i<k. backoff_ms (rs i)) + ls k,
            requests = k + 1,
            sleeps = map (\<lambda>i. backoff_ms (rs i)) [0..<k]\<rparr>"
    using assms(1,3) by (intro loop_other_status) simp_all
  finally show ?thesis
    by (simp add: lessThan_Suc_atMost [symmetric])
qed

lemma slackFetch_exhausted:
  assumes "\<forall>i<5. status (rs i) = 429"
  shows "slackFetch (responding ls rs) None now =
           \<lparr>result = Inl RateLimited,
            finished = now + (\<Sum>i<5. ls i) + (\<Sum>i<4. backoff_ms (rs i)),
            requests = 5,
            sleeps = map (\<lambda>i. backoff_ms (rs i)) [0..<4]\<rparr>"
proof -
  have "slackFetch (responding ls rs) None now =
        slackFetch_loop (responding ls rs) None (5 - int 4)
          (now + (\<Sum>i<4. ls i) + (\<Sum>i<4. backoff_ms (rs i))) 4
          (map (\<lambda>i. backoff_ms (rs i)) [0..<4])"
    unfolding slackFetch_def
    using loop_429_retries [of 4 5 rs 0 ls now "[]"] assms by simp
  also have "\<dots> = \<lparr>result = Inl RateLimited,
            finished = now + (\<Sum>i<4. ls i) + (\<Sum>i<4. backoff_ms (rs i)) + ls 4,
            requests = 4 + 1,
            sleeps = map (\<lambda>i. backoff_ms (rs i)) [0..<4]\<rparr>"
    using assms by (intro loop_429_exhausted) simp_all
  finally show ?thesis
    by (simp add: eval_nat_numeral)
qed

text \<open>
  Claim C6. Whatever the network and the signal do, \<^verbatim>\<open>slackFetch\<close> calls \<^verbatim>\<open>fetch\<close> at most
  five times. On a network that answers every request, with no cancellation: when the
  first \<open>k \<le> 4\<close> responses are 429 and the next one is not, the call makes \<open>k + 1\<close>
  requests, sleeps after each 429 for the backoff that response asks for, and ends with
  what the last response gives; when the first five responses are 429 it ends with the
  rate-limit error after five requests and four sleeps. The backoff is one second when
  the \<^verbatim>\<open>Retry-After\<close> header is absent, and the header's number of seconds when that is
  a decimal numeral (below the 32-bit limit of timers in milliseconds). A response with a
  JSON content type whose body has \<^verbatim>\<open>ok\<close> true gives that body as the payload. The
  witness is the mock with three 429 responses and then a success: three retries, the
  three delays of the server, and the payload.
\<close>

theorem slackFetch_rate_limit_backoff:
  "requests (slackFetch net signal now) \<le> 5
   \<and> (k \<le> 4 \<and> (\<forall>i<k. status (rs i) = 429) \<and> status (rs k) \<noteq> 429 \<longrightarrow>
        slackFetch (responding ls rs) None now =
          \<lparr>result = read_response (rs k),
           finished = now + (\<Sum>i\<le>k. ls i) + (\<Sum>i<k. backoff_ms (rs i)),
           requests = k + 1,
           sleeps = map (\<lambda>i. backoff_ms (rs i)) [0..<k]\<rparr>)
   \<and> ((\<forall>i<5. status (rs i) = 429) \<longrightarrow>
        slackFetch (responding ls rs) None now =
          \<lparr>result = Inl RateLimited,
           finished = now + (\<Sum>i<5. ls i) + (\<Sum>i<4. backoff_ms (rs i)),
           requests = 5,
           sleeps = map (\<lambda>i. backoff_ms (rs i)) [0..<4]\<rparr>)
   \<and> (retry_after r = None \<longrightarrow> backoff_ms r = 1000)
   \<and> (retry_after r = Some h \<and> h \<noteq> [] \<and> (\<forall>c\<in>set h. is_digit c) \<and> digits_value h * 1000 < 2 ^ 31 \<longrightarrow>
        backoff_ms r = digits_value h * 1000)
   \<and> (content_type r = Some ct \<and> indexOf ct ''application/json'' \<noteq> - 1 \<and> json r = Some data \<and> ok data \<longrightarrow>
        read_response r = Inr data)"
proof -
  have "requests (slackFetch net signal now) \<le> 5"
    using requests_le [of net signal 5 now 0 "[]"] by (simp add: slackFetch_def)
  then show ?thesis
    using slackFetch_answered [of k rs ls now] slackFetch_exhausted [of rs ls now]
      backoff_ms_absent [of r] backoff_ms_seconds [of r h] read_response_success [of r ct data]
    by blast
qed

lemmas slackFetch_mock_defs =
  three_429_then_success_def rate_limited_def success_def every_100ms_def always_429_def

lemmas number_parsing_defs =
  backoff_ms_def retryAfterSeconds_def parseInt_def read_sign_def is_space_def is_digit_def
  digits_value_def setTimeout_delay_def

theorem slackFetch_rate_limit_backoff_witness:
  "slackFetch (responding every_100ms three_429_then_success) None 0 =
     \<lparr>result = Inr (Envelope True [] ''payload''), finished = 8400, requests = 4,
      sleeps = [2000, 5000, 1000]\<rparr>"
proof -
  have "(3::nat) \<le> 4 \<and> (\<forall>i<3. status (three_429_then_success i) = 429)
        \<and> status (three_429_then_success 3) \<noteq> 429"
    by (simp add: slackFetch_mock_defs)
  then have "slackFetch (responding every_100ms three_429_then_success) None 0 =
          \<lparr>result = read_response (three_429_then_success 3),
           finished = 0 + (\<Sum>i\<le>3. every_100ms i) + (\<Sum>i<3. backoff_ms (three_429_then_success i)),
           requests = 3 + 1,
           sleeps = map (\<lambda>i. backoff_ms (three_429_then_success i)) [0..<3]\<rparr>"
    using slackFetch_rate_limit_backoff
      [where k = 3 and rs = three_429_then_success and ls = every_100ms and now = 0]
    by blast
  then show ?thesis
    by (simp add: slackFetch_mock_defs number_parsing_defs read_response_def indexOf_def
        eval_nat_numeral upt_rec)
qed

lemma cancel_in_flight:
  assumes "0 < retries" and "now < c" and "c < now + latency (net n)"
  shows "slackFetch_loop net (Some c) retries now n slept =
           \<lparr>result = Inl AbortError, finished = c, requests = n + 1, sleeps = slept\<rparr>"
  using assms by (subst slackFetch_loop.simps) (simp add: fetch_def)

lemma cancel_before_call:
  assumes "0 < retries" and "c \<le> now"
  shows "slackFetch_loop net (Some c) retries now n slept =
           \<lparr>result = Inl AbortError, finished = now, requests = n + 1, sleeps = slept\<rparr>"
  using assms by (subst slackFetch_loop.simps) (simp add: fetch_def)

lemma cancel_in_backoff:
  assumes "1 < retries" and "outcome (net n) = Responds r" and "status r = 429"
    and "now < c" and "now + latency (net n) \<le> c" and "c \<le> now + latency (net n) + backoff_ms r"
  shows "slackFetch_loop net (Some c) retries now n slept =
           \<lparr>result = Inl AbortError, finished = now + latency (net n) + backoff_ms r,
            requests = n + 2, sleeps = slept @ [backoff_ms r]\<rparr>"
proof -
  have "slackFetch_loop net (Some c) retries now n slept =
        slackFetch_loop net (Some c) (retries - 1) (now + latency (net n) + backoff_ms r) (n + 1)
          (slept @ [backoff_ms r])"
    using assms by (subst slackFetch_loop.simps) (simp add: fetch_def)
  also have "\<dots> = \<lparr>result = Inl AbortError, finished = now + latency (net n) + backoff_ms r,
            requests = n + 1 + 1, sleeps = slept @ [backoff_ms r]\<rparr>"
    using assms by (intro cancel_before_call) simp_all
  finally show ?thesis by simp
qed

text \<open>
  Claim C7, as amended. At any iteration of the retry loop, and so in particular for a call
  of \<^verbatim>\<open>slackFetch\<close> at its first request: when the signal fires while the network call is
  outstanding, the call ends at that moment with an \<^verbatim>\<open>AbortError\<close>. When the signal fires
  during the backoff sleep after a 429, the sleep still runs to its end; the next
  \<^verbatim>\<open>fetch\<close> is then rejected at once, so the call ends with an \<^verbatim>\<open>AbortError\<close> at the end
  of the sleep, not at the time of the signal.
\<close>

theorem slackFetch_cancellation:
  "(0 < retries \<and> now < c \<and> c < now + latency (net n) \<longrightarrow>
      slackFetch_loop net (Some c) retries now n slept =
        \<lparr>result = Inl AbortError, finished = c, requests = n + 1, sleeps = slept\<rparr>)
   \<and> (1 < retries \<and> outcome (net n) = Responds r \<and> status r = 429
        \<and> now < c \<and> now + latency (net n) \<le> c \<and> c \<le> now + latency (net n) + backoff_ms r \<longrightarrow>
      slackFetch_loop net (Some c) retries now n slept =
        \<lparr>result = Inl AbortError, finished = now + latency (net n) + backoff_ms r,
         requests = n + 2, sleeps = slept @ [backoff_ms r]\<rparr>)
   \<and> (start < c \<and> c < start + latency (net 0) \<longrightarrow>
      slackFetch net (Some c) start =
        \<lparr>result = Inl AbortError, finished = c, requests = 1, sleeps = []\<rparr>)
   \<and> (outcome (net 0) = Responds r0 \<and> status r0 = 429
        \<and> start < c \<and> start + latency (net 0) \<le> c \<and> c \<le> start + latency (net 0) + backoff_ms r0 \<longrightarrow>
      slackFetch net (Some c) start =
        \<lparr>result = Inl AbortError, finished = start + latency (net 0) + backoff_ms r0,
         requests = 2, sleeps = [backoff_ms r0]\<rparr>)"
  using cancel_in_flight [of retries now c net n slept]
    cancel_in_backoff [of retries net n r now c slept]
    cancel_in_flight [of 5 start c net 0 "[]"]
    cancel_in_backoff [of 5 net 0 r0 start c "[]"]
  by (simp add: slackFetch_def)

theorem slackFetch_cancellation_witness:
  "slackFetch (responding every_100ms three_429_then_success) (Some 50) 0 =
     \<lparr>result = Inl AbortError, finished = 50, requests = 1, sleeps = []\<rparr>
   \<and> slackFetch (responding every_100ms three_429_then_success) (Some 1500) 0 =
     \<lparr>result = Inl AbortError, finished = 2100, requests = 2, sleeps = [2000]\<rparr>"
proof -
  have b: "backoff_ms (rate_limited (Some ''2'')) = 2000"
    by (simp add: rate_limited_def number_parsing_defs)
  have 1: "(0::nat) < 50 \<and> 50 < 0 + latency (responding every_100ms three_429_then_success 0)"
    by (simp add: responding_def every_100ms_def)
  have 2: "outcome (responding every_100ms three_429_then_success 0) = Responds (rate_limited (Some ''2''))
     \<and> status (rate_limited (Some ''2'')) = 429 \<and> (0::nat) < 1500
     \<and> 0 + latency (responding every_100ms three_429_then_success 0) \<le> 1500
     \<and> 1500 \<le> 0 + latency (responding every_100ms three_429_then_success 0)
                 + backoff_ms (rate_limited (Some ''2''))"
    by (simp add: responding_def every_100ms_def three_429_then_success_def b)
       (simp add: rate_limited_def)
  have "slackFetch (responding every_100ms three_429_then_success) (Some 50) 0 =
     \<lparr>result = Inl AbortError, finished = 50, requests = 1, sleeps = []\<rparr>"
    using 1 slackFetch_cancellation [where start = 0 and c = 50
        and net = "responding every_100ms three_429_then_success"]
    by blast
  moreover have "slackFetch (responding every_100ms three_429_then_success) (Some 1500) 0 =
     \<lparr>result = Inl AbortError,
      finished = 0 + latency (responding every_100ms three_429_then_success 0)
                   + backoff_ms (rate_limited (Some ''2'')),
      requests = 2, sleeps = [backoff_ms (rate_limited (Some ''2''))]\<rparr>"
    using 2 slackFetch_cancellation [where start = 0 and c = 1500
        and net = "responding every_100ms three_429_then_success" and ?r0.0 = "rate_limited (Some ''2'')"]
    by blast
  ultimately show ?thesis
    by (simp add: b responding_def every_100ms_def)
qed

text \<open>
  Claim C7 as stated fails: the server answers after 100 ms with a 429 and
  \<^verbatim>\<open>Retry-After: 30\<close>, the signal fires at 5000 ms, in the middle of the backoff sleep,
  and the call ends at 30100 ms, after the whole sleep.
\<close>

theorem slackFetch_sleeps_through_cancellation:
  "fetch (Some 5000) 0 (responding every_100ms always_429 0) = (100, Inr (always_429 0))
   \<and> backoff_ms (always_429 0) = 30000
   \<and> slackFetch (responding every_100ms always_429) (Some 5000) 0 =
       \<lparr>result = Inl AbortError, finished = 30100, requests = 2, sleeps = [30000]\<rparr>
   \<and> finished (slackFetch (responding every_100ms always_429) (Some 5000) 0) \<noteq> 5000"
  by (simp add: slackFetch_def slackFetch_loop.simps fetch_def responding_def slackFetch_mock_defs
      number_parsing_defs)

section \<open>The spacing variations of a keyword of several words\<close>

lemma shift_count:
  assumes "j < 32"
  shows "unat ((word_of_nat j :: 32 word) AND 31) = j"
proof -
  have "(31 :: 32 word) = mask 5"
    by (simp add: mask_eq_exp_minus_1)
  then have "unat ((word_of_nat j :: 32 word) AND 31) = unat (take_bit 5 (word_of_nat j :: 32 word))"
    by (simp only: take_bit_eq_mask)
  also have "\<dots> = take_bit 5 (unat (word_of_nat j :: 32 word))"
    by (simp add: unsigned_take_bit_eq)
  also have "\<dots> = j"
    using assms by (simp add: unat_of_nat take_bit_nat_eq_self)
  finally show ?thesis .
qed

lemma js_bit_test:
  assumes "j < 32"
  shows "js_and (js_sar i (int j)) 1 \<noteq> 0 \<longleftrightarrow> bit i j"
proof -
  let ?w = "signed_drop_bit j (word_of_int i :: 32 word)"
  have "js_and (js_sar i (int j)) 1 = sint (?w AND 1)"
    by (simp add: js_and_def js_sar_def shift_count [OF assms])
  also have "\<dots> \<noteq> 0 \<longleftrightarrow> ?w AND 1 \<noteq> 0"
    using word_eq_iff_signed by fastforce
  also have "\<dots> \<longleftrightarrow> bit ?w 0"
    by (simp add: bit_iff_and_push_bit_not_eq_0)
  also have "\<dots> \<longleftrightarrow> bit (word_of_int i :: 32 word) j"
    using assms by (simp add: bit_signed_drop_bit_iff)
  also have "\<dots> \<longleftrightarrow> bit i j"
    using assms by (simp add: bit_word_of_int_iff)
  finally show ?thesis .
qed

lemma js_shl_one:
  assumes "n \<le> 30"
  shows "js_shl 1 (int n) = 2 ^ n"
proof -
  have "n < 32" using assms by simp
  then have "js_shl 1 (int n) = sint ((2 :: 32 word) ^ n)"
    by (simp add: js_shl_def shift_count)
  also have "\<dots> = sint (word_of_int (2 ^ n) :: 32 word)"
    by simp
  also have "\<dots> = 2 ^ n"
  proof (rule sint_small)
    show "(0::int) \<le> 2 ^ n" by simp
    have "(2::int) ^ n < 2 ^ 31"
      using assms by (intro power_strict_increasing) simp_all
    then show "(2::int) ^ n < 2 ^ 31" .
  qed
  finally show ?thesis .
qed

lemma fold_append_concat:
  "fold (\<lambda>j cur. cur @ h j) js acc = acc @ concat (map h js)"
  by (induction js arbitrary: acc) auto

lemma spacing_concat:
  assumes "length bs = length ws"
  shows "spacing (w # ws) bs =
         w @ concat (map (\<lambda>j. (if bs ! j then '' '' else []) @ ws ! j) [0..<length ws])"
  using assms
proof (induction ws arbitrary: w bs)
  case Nil
  then show ?case by simp
next
  case (Cons v ws)
  then obtain b bs' where bs: "bs = b # bs'" and len: "length bs' = length ws"
    by (cases bs) auto
  have "[0..<Suc (length ws)] = 0 # map Suc [0..<length ws]"
    by (simp only: map_Suc_upt upt_conv_Cons [OF zero_less_Suc])
  then show ?case
    using Cons.IH [OF len, of v] by (simp add: bs comp_def del: upt_Suc)
qed

lemma currentVariation_spacing:
  assumes "length ws \<le> 32"
  shows "currentVariation (w # ws) i = spacing (w # ws) (map (\<lambda>j. bit i j) [0..<length ws])"
proof -
  have "currentVariation (w # ws) i =
        w @ concat (map (\<lambda>j. (if js_and (js_sar i (int j)) 1 \<noteq> 0 then '' '' else []) @ ws ! j)
                        [0..<length ws])"
  proof -
    have "(\<lambda>j cur. (if js_and (js_sar i (int j)) 1 \<noteq> 0 then cur @ '' '' else cur) @ (w # ws) ! (j + 1))
          = (\<lambda>j cur. cur @ ((if js_and (js_sar i (int j)) 1 \<noteq> 0 then '' '' else []) @ ws ! j))"
      by (auto simp: fun_eq_iff)
    then show ?thesis
      by (simp add: currentVariation_def fold_append_concat)
  qed
  also have "\<dots> = w @ concat (map (\<lambda>j. (if bit i j then '' '' else []) @ ws ! j) [0..<length ws])"
    using assms by (intro arg_cong [where f = "\<lambda>x. w @ concat x"] map_cong) (auto simp: js_bit_test)
  also have "\<dots> = w @ concat (map (\<lambda>j. (if map (\<lambda>j. bit i j) [0..<length ws] ! j then '' '' else [])
                                          @ ws ! j) [0..<length ws])"
    by (intro arg_cong [where f = "\<lambda>x. w @ concat x"] map_cong) simp_all
  also have "\<dots> = spacing (w # ws) (map (\<lambda>j. bit i j) [0..<length ws])"
    by (subst spacing_concat) simp_all
  finally show ?thesis .
qed

lemma fold_set_add:
  "set (fold (\<lambda>i acc. set_add acc (f i)) xs acc) = set acc \<union> f ` set xs"
  by (induction xs arbitrary: acc) (auto simp: set_add_def)

lemma fold_set_add_distinct:
  "distinct acc \<Longrightarrow> distinct (fold (\<lambda>i acc. set_add acc (f i)) xs acc)"
  by (induction xs arbitrary: acc) (auto simp: set_add_def)

lemma fold_set_add_length:
  "length (fold (\<lambda>i acc. set_add acc (f i)) xs acc) \<le> length acc + length xs"
proof (induction xs arbitrary: acc)
  case Nil
  then show ?case by simp
next
  case (Cons x xs)
  have "length (set_add acc (f x)) \<le> length acc + 1"
    by (simp add: set_add_def)
  with Cons [of "set_add acc (f x)"] show ?case by simp
qed

lemma bit_patterns:
  "(\<lambda>i. map (\<lambda>j. bit (int i) j) [0..<n]) ` {0..<2 ^ n} = {bs. length bs = n}"
proof (intro equalityI subsetI)
  fix bs assume "bs \<in> (\<lambda>i. map (\<lambda>j. bit (int i) j) [0..<n]) ` {0..<2 ^ n}"
  then show "bs \<in> {bs. length bs = n}" by auto
next
  fix bs :: "bool list" assume "bs \<in> {bs. length bs = n}"
  then have len: "length bs = n" by simp
  let ?i = "horner_sum of_bool 2 bs :: nat"
  have "?i < 2 ^ n"
    using horner_sum_bound [of bs, where ?'a = nat] len by simp
  moreover have "map (\<lambda>j. bit (int ?i) j) [0..<n] = bs"
  proof (rule nth_equalityI)
    show "length (map (\<lambda>j. bit (int ?i) j) [0..<n]) = length bs"
      using len by simp
    fix k assume "k < length (map (\<lambda>j. bit (int ?i) j) [0..<n])"
    then have k: "k < n" by simp
    have "bit (int ?i) k = bit ?i k"
      by (simp add: bit_of_nat_iff_bit)
    also have "\<dots> = bs ! k"
      using k len by (simp add: bit_horner_sum_bit_iff)
    finally show "map (\<lambda>j. bit (int ?i) j) [0..<n] ! k = bs ! k"
      using k by simp
  qed
  ultimately show "bs \<in> (\<lambda>i. map (\<lambda>j. bit (int i) j) [0..<n]) ` {0..<2 ^ n}"
    by (metis (mono_tags, lifting) atLeastLessThan_iff image_eqI zero_le)
qed

text \<open>
  For a keyword of two to 31 words the function returns the spacing variations and nothing
  else: for every choice of space or no space between adjacent words the string so
  spaced, each once, bit \<open>j\<close> of the loop index deciding the space after word \<open>j\<close>. A
  keyword of three words gives at most four strings.
\<close>

lemma generateQueryVariations_up_to_31_words:
  assumes "filter_Boolean (js_split_ws kw) = w # ws" and "1 \<le> length ws" and "length ws \<le> 30"
  shows "set (generateQueryVariations kw) = {spacing (w # ws) bs | bs. length bs = length ws}"
    and "distinct (generateQueryVariations kw)"
    and "length (generateQueryVariations kw) \<le> 2 ^ length ws"
proof -
  have bound: "js_shl 1 (int (length ws)) = 2 ^ length ws"
    using assms(3) by (rule js_shl_one)
  have ne: "ws \<noteq> []"
    using assms(2) by auto
  have n: "nat (2 ^ length ws) = 2 ^ length ws"
    by (simp add: nat_power_eq)
  have gqv: "generateQueryVariations kw =
        fold (\<lambda>i variations. set_add variations (currentVariation (w # ws) (int i)))
             [0..<2 ^ length ws] []"
    using ne by (simp add: generateQueryVariations_def assms(1) Let_def bound n fold_map comp_def)
  have cv: "currentVariation (w # ws) (int i) = spacing (w # ws) (map (\<lambda>j. bit (int i) j) [0..<length ws])"
    for i
    using assms(3) by (intro currentVariation_spacing) simp
  have "set (generateQueryVariations kw) =
        (\<lambda>i. spacing (w # ws) (map (\<lambda>j. bit (int i) j) [0..<length ws])) ` {0..<2 ^ length ws}"
    by (simp add: gqv fold_set_add cv)
  also have "\<dots> = spacing (w # ws) ` ((\<lambda>i. map (\<lambda>j. bit (int i) j) [0..<length ws]) ` {0..<2 ^ length ws})"
    by (simp add: image_image)
  also have "\<dots> = {spacing (w # ws) bs | bs. length bs = length ws}"
    unfolding bit_patterns by auto
  finally show "set (generateQueryVariations kw) = {spacing (w # ws) bs | bs. length bs = length ws}" .
  show "distinct (generateQueryVariations kw)"
    by (simp add: gqv fold_set_add_distinct)
  show "length (generateQueryVariations kw) \<le> 2 ^ length ws"
    using fold_set_add_length [of "\<lambda>i. currentVariation (w # ws) (int i)" "[0..<2 ^ length ws]" "[]"]
    by (simp add: gqv)
qed


text \<open>
  Claim C8. The claim asks for all \<open>2 ^ (n - 1)\<close> spacing variations of every keyword of
  \<open>n\<close> words. The bound of the outer loop is \<^verbatim>\<open>1 << numSpaces\<close>, a 32-bit shift: for a
  keyword of 32 words it is \<open>- 2 ^ 31\<close>, the loop body never runs, and the function
  returns the empty list.
\<close>

theorem generateQueryVariations_32_words:
  "generateQueryVariations ''a a a a a a a a a a a a a a a a a a a a a a a a a a a a a a a a'' = []"
  by (simp add: generateQueryVariations_def filter_Boolean_def is_space_def js_shl_def Let_def
      js_split_ws.simps)

section \<open>Properties of the paginated search executor\<close>

lemma hasMore_iff:
  "hasMore data page \<longleftrightarrow>
     (\<exists>r pg n. messages data = Some r \<and> paging r = Some pg \<and> pages pg = Some n \<and> page < n)"
  by (auto simp: hasMore_def split: option.splits)

lemma performSearch_loop_pages:
  assumes "page \<le> n"
    and "\<forall>k\<in>{page..n}. search_messages api query k = Inr (ds k)"
    and "\<forall>k\<in>{page..<n}. hasMore (ds k) k"
    and "\<not> hasMore (ds n) n"
  shows "performSearch_loop api query allMessages page requested =
         Some (requested @ [page..n],
               Inr (allMessages @ concat (map (\<lambda>k. page_matches (ds k)) [page..n])))"
  using assms
proof (induction "nat (n - page)" arbitrary: page allMessages requested)
  case 0
  then have "page = n" by simp
  with 0 show ?case
    by (subst performSearch_loop.simps) simp
next
  case (Suc d)
  then have lt: "page < n" by linarith
  have here: "search_messages api query page = Inr (ds page)" and more: "hasMore (ds page) page"
    using Suc.prems lt by simp_all
  have "performSearch_loop api query (allMessages @ page_matches (ds page)) (page + 1)
          (requested @ [page]) =
        Some ((requested @ [page]) @ [page + 1..n],
              Inr ((allMessages @ page_matches (ds page))
                   @ concat (map (\<lambda>k. page_matches (ds k)) [page + 1..n])))"
  proof (rule Suc.hyps(1))
    show "d = nat (n - (page + 1))" using Suc.hyps(2) by linarith
    show "page + 1 \<le> n" using lt by simp
    show "\<forall>k\<in>{page + 1..n}. search_messages api query k = Inr (ds k)"
      using Suc.prems(2) by simp
    show "\<forall>k\<in>{page + 1..<n}. hasMore (ds k) k"
      using Suc.prems(3) by simp
    show "\<not> hasMore (ds n) n" by (rule Suc.prems(4))
  qed
  moreover have "[page..n] = page # [page + 1..n]"
    using lt by (simp add: upto_rec1)
  ultimately show ?case
    using here more by (subst performSearch_loop.simps) simp
qed

text \<open>
  Claim C3, as amended. \<^verbatim>\<open>performSearch\<close> asks for the pages 1, 2, ... in order. It goes on
  after page \<open>k\<close> exactly when that response has paging metadata whose page count is
  greater than \<open>k\<close>, whether or not the page had matches; so when this holds for the pages
  before \<open>n\<close> and fails at page \<open>n\<close>, it makes exactly the requests \<open>1, ..., n\<close> and
  returns the matches of these pages, concatenated in order. The witness is the mock of
  three pages: three requests, starting at page 1, and the matches of all three pages.
\<close>

theorem performSearch_pagination:
  "(1 \<le> n \<and> (\<forall>k\<in>{1..n}. search_messages api query k = Inr (ds k))
      \<and> (\<forall>k\<in>{1..<n}. hasMore (ds k) k) \<and> \<not> hasMore (ds n) n \<longrightarrow>
      performSearch_trace api query =
        Some ([1..n], Inr (concat (map (\<lambda>k. page_matches (ds k)) [1..n]))))
   \<and> (hasMore data page \<longleftrightarrow>
        (\<exists>r pg total. messages data = Some r \<and> paging r = Some pg \<and> pages pg = Some total
           \<and> page < total))"
  using performSearch_loop_pages [of 1 n api query ds "[]" "[]"] hasMore_iff [of data page]
  by (simp add: performSearch_trace_def)

lemmas search_mock_defs =
  three_pages_api_def three_pages_def empty_first_page_api_def empty_first_page_def
  search_page_def hit_def

theorem performSearch_pagination_witness:
  "performSearch_trace three_pages_api ''slack'' =
     Some ([1, 2, 3],
           Inr [hit ''p1'' ''1700000001.000100'' ''C1'', hit ''p2'' ''1700000002.000100'' ''C1'',
                hit ''p3'' ''1700000003.000100'' ''C1'', hit ''p4'' ''1700000004.000100'' ''C1''])"
proof -
  have "(1::int) \<le> 3 \<and> (\<forall>k\<in>{1..3}. search_messages three_pages_api ''slack'' k = Inr (three_pages k))
      \<and> (\<forall>k\<in>{1..<3}. hasMore (three_pages k) k) \<and> \<not> hasMore (three_pages 3) 3"
    by (auto simp: three_pages_api_def three_pages_def search_page_def hasMore_def)
  then have "performSearch_trace three_pages_api ''slack'' =
        Some ([1..3], Inr (concat (map (\<lambda>k. page_matches (three_pages k)) [1..3])))"
    using performSearch_pagination [where n = 3 and api = three_pages_api and query = "''slack''"
        and ds = three_pages]
    by blast
  moreover have "[1..3::int] = [1, 2, 3]"
    by (simp add: upto_rec1)
  ultimately show ?thesis
    by (simp add: three_pages_def page_matches_def search_page_def)
qed

text \<open>
  Claim C3 as stated fails: a first page without matches that reports two pages does not
  stop the loop; page 2 is requested as well.
\<close>

theorem performSearch_continues_after_empty_page:
  "page_matches (empty_first_page 1) = []
   \<and> performSearch_trace empty_first_page_api ''slack'' =
       Some ([1, 2], Inr [hit ''p1'' ''1700000001.000100'' ''C1''])"
  by (simp add: performSearch_trace_def performSearch_loop.simps empty_first_page_api_def
      empty_first_page_def search_page_def page_matches_def hasMore_def)

section \<open>Properties of the maps and of the deduplication\<close>

subsection \<open>Maps in insertion order\<close>

lemma Map_set_keys:
  "map fst (Map_set m k v) = (if k \<in> set (map fst m) then map fst m else map fst m @ [k])"
proof (induction m)
  case Nil
  then show ?case by simp
next
  case (Cons e m)
  obtain k' v' where e: "e = (k', v')" by (cases e)
  show ?case
  proof (cases "k' = k")
    case True
    then show ?thesis by (simp add: e)
  next
    case False
    then show ?thesis using Cons.IH by (simp add: e)
  qed
qed

lemma Map_set_distinct: "distinct (map fst m) \<Longrightarrow> distinct (map fst (Map_set m k v))"
  by (simp add: Map_set_keys)

lemma map_of_Map_set: "map_of (Map_set m k v) = (map_of m)(k \<mapsto> v)"
  by (induction m) (auto simp: fun_eq_iff)

lemma fold_Map_set_distinct:
  "distinct (map fst m) \<Longrightarrow> distinct (map fst (fold (\<lambda>(k, v) m. Map_set m k v) kvs m))"
  by (induction kvs arbitrary: m) (auto simp: Map_set_distinct)

lemma fold_Map_set_map_of:
  "map_of (fold (\<lambda>(k, v) m. Map_set m k v) kvs m) = map_of m ++ map_of (rev kvs)"
proof (induction kvs arbitrary: m)
  case Nil
  then show ?case by simp
next
  case (Cons kv kvs)
  obtain k v where kv: "kv = (k, v)" by (cases kv)
  show ?case
    by (simp add: Cons.IH kv map_of_Map_set fun_eq_iff map_add_def split: option.splits)
qed

lemma new_Map_distinct: "distinct (map fst (new_Map kvs))"
  by (simp add: new_Map_def fold_Map_set_distinct)

lemma new_Map_map_of: "map_of (new_Map kvs) = map_of (rev kvs)"
  by (simp add: new_Map_def fold_Map_set_map_of)

lemma new_Map_entry_iff: "(k, v) \<in> set (new_Map kvs) \<longleftrightarrow> map_of (rev kvs) k = Some v"
  using new_Map_distinct [of kvs] new_Map_map_of [of kvs] by (metis map_of_eq_Some_iff)

lemma new_Map_entries: "set (new_Map kvs) \<subseteq> set kvs"
proof
  fix e assume "e \<in> set (new_Map kvs)"
  then have "map_of (rev kvs) (fst e) = Some (snd e)"
    using new_Map_entry_iff [of "fst e" "snd e" kvs] by simp
  then have "(fst e, snd e) \<in> set (rev kvs)"
    by (rule map_of_SomeD)
  then show "e \<in> set kvs" by simp
qed

lemma new_Map_keys: "fst ` set (new_Map kvs) = fst ` set kvs"
proof -
  have "dom (map_of (new_Map kvs)) = dom (map_of (rev kvs))"
    by (simp add: new_Map_map_of)
  then show ?thesis
    by (simp add: dom_map_of_conv_image_fst)
qed

lemma map_of_keyed_find:
  "map_of (map (\<lambda>x. (f x, g x)) ys) k = map_option g (find (\<lambda>y. f y = k) ys)"
  by (induction ys) auto

subsection \<open>Deduplication by a key\<close>

lemma dedup_keys:
  "map f (Map_values (new_Map (map (\<lambda>x. (f x, x)) xs))) = map fst (new_Map (map (\<lambda>x. (f x, x)) xs))"
proof -
  have "\<forall>e\<in>set (new_Map (map (\<lambda>x. (f x, x)) xs)). f (snd e) = fst e"
    using new_Map_entries [of "map (\<lambda>x. (f x, x)) xs"] by auto
  then show ?thesis
    by (simp add: Map_values_def)
qed

lemma dedup_distinct: "distinct (map f (Map_values (new_Map (map (\<lambda>x. (f x, x)) xs))))"
  by (simp add: dedup_keys new_Map_distinct)

lemma dedup_key_set: "f ` set (Map_values (new_Map (map (\<lambda>x. (f x, x)) xs))) = f ` set xs"
proof -
  have "set (map f (Map_values (new_Map (map (\<lambda>x. (f x, x)) xs)))) = fst ` set (map (\<lambda>x. (f x, x)) xs)"
    unfolding dedup_keys by (simp add: new_Map_keys)
  then show ?thesis
    by (simp add: image_image)
qed

lemma dedup_member_iff:
  "x \<in> set (Map_values (new_Map (map (\<lambda>x. (f x, x)) xs))) \<longleftrightarrow>
   find (\<lambda>y. f y = f x) (rev xs) = Some x"
proof -
  let ?kvs = "map (\<lambda>x. (f x, x)) xs"
  have "x \<in> set (Map_values (new_Map ?kvs)) \<longleftrightarrow> (\<exists>k. (k, x) \<in> set (new_Map ?kvs))"
    by (force simp: Map_values_def)
  also have "\<dots> \<longleftrightarrow> (f x, x) \<in> set (new_Map ?kvs)"
    using new_Map_entries [of ?kvs] by auto
  also have "\<dots> \<longleftrightarrow> map_of (map (\<lambda>x. (f x, x)) (rev xs)) (f x) = Some x"
    by (simp add: new_Map_entry_iff rev_map)
  also have "\<dots> \<longleftrightarrow> find (\<lambda>y. f y = f x) (rev xs) = Some x"
    by (simp add: map_of_keyed_find [where g = "\<lambda>x. x"] option.map_ident)
  finally show ?thesis .
qed

lemma dedup_subset: "set (Map_values (new_Map (map (\<lambda>x. (f x, x)) xs))) \<subseteq> set xs"
  using new_Map_entries [of "map (\<lambda>x. (f x, x)) xs"] by (auto simp: Map_values_def)

lemma distinct_key_filter_one:
  "distinct (map f ys) \<Longrightarrow> p \<in> f ` set ys \<Longrightarrow> length (filter (\<lambda>y. f y = p) ys) = 1"
proof (induction ys)
  case Nil
  then show ?case by simp
next
  case (Cons y ys)
  show ?case
  proof (cases "f y = p")
    case True
    have "f y \<notin> f ` set ys"
      using Cons.prems(1) by simp
    then have "\<forall>z\<in>set ys. f z \<noteq> p"
      using True by blast
    then have "filter (\<lambda>y. f y = p) ys = []"
      by (simp add: filter_empty_conv)
    with True show ?thesis by simp
  next
    case False
    with Cons show ?thesis by auto
  qed
qed

subsection \<open>Deduplication by permalink\<close>

lemma federatedSearch_unique:
  "federatedSearch api params = Some (Inr msgs) \<Longrightarrow> \<exists>all. msgs = uniqueMessages all"
  by (auto simp: federatedSearch_def split: option.splits sum.splits)

text \<open>
  Claim C9. For every list of raw matches, flattened from the tasks of the fan-out, the
  merged output \<^verbatim>\<open>uniqueMessages\<close> has no two matches with the same permalink, has
  exactly the permalinks of the input, holds exactly one match for each of them, and that
  match is the last one of the input with this permalink (last write wins). The output of
  the federated search is such a list. In the witness the same match arrives from the two
  variation tasks of a keyword of two words, and one survives.
\<close>

theorem uniqueMessages_one_per_permalink:
  "distinct (map permalink (uniqueMessages allSearchResults))
   \<and> permalink ` set (uniqueMessages allSearchResults) = permalink ` set allSearchResults
   \<and> (\<forall>p\<in>permalink ` set allSearchResults.
        length (filter (\<lambda>m. permalink m = p) (uniqueMessages allSearchResults)) = 1)
   \<and> (\<forall>m\<in>set (uniqueMessages allSearchResults).
        find (\<lambda>x. permalink x = permalink m) (rev allSearchResults) = Some m)
   \<and> (federatedSearch api params = Some (Inr msgs) \<longrightarrow> distinct (map permalink msgs))"
proof -
  have d: "distinct (map permalink (uniqueMessages all))" for all
    unfolding uniqueMessages_def by (rule dedup_distinct)
  have s: "permalink ` set (uniqueMessages allSearchResults) = permalink ` set allSearchResults"
    unfolding uniqueMessages_def by (rule dedup_key_set)
  have "length (filter (\<lambda>m. permalink m = p) (uniqueMessages allSearchResults)) = 1"
    if "p \<in> permalink ` set allSearchResults" for p
    using that s by (intro distinct_key_filter_one d) simp
  moreover have "find (\<lambda>x. permalink x = permalink m) (rev allSearchResults) = Some m"
    if "m \<in> set (uniqueMessages allSearchResults)" for m
    using that unfolding uniqueMessages_def by (simp add: dedup_member_iff)
  moreover have "distinct (map permalink msgs)" if "federatedSearch api params = Some (Inr msgs)"
    using federatedSearch_unique [OF that] d by auto
  ultimately show ?thesis
    using d s by blast
qed

lemmas variation_eval_defs =
  generateQueryVariations_def filter_Boolean_def is_space_def js_shl_def js_sar_def js_and_def
  currentVariation_def set_add_def Let_def upt_rec js_split_ws.simps

theorem uniqueMessages_one_per_permalink_witness:
  "federatedSearch same_hit_api two_words = Some (Inr [hit ''p1'' ''1700000001.000100'' ''C1''])
   \<and> distinct (map permalink [hit ''p1'' ''1700000001.000100'' ''C1''])
   \<and> uniqueMessages [hit ''p1'' ''1700000001.000100'' ''C1'', hit ''p1'' ''1700000001.000100'' ''C1'']
       = [hit ''p1'' ''1700000001.000100'' ''C1'']"
proof -
  have gv: "generateQueryVariations ''slack bot'' = [''slackbot'', ''slack bot'']"
    by (simp add: variation_eval_defs)
  have ps: "performSearch same_hit_api q = Some (Inr [hit ''p1'' ''1700000001.000100'' ''C1''])" for q
    by (simp add: performSearch_def performSearch_trace_def performSearch_loop.simps
        same_hit_api_def search_page_def hasMore_def page_matches_def)
  have um: "uniqueMessages [hit ''p1'' ''1700000001.000100'' ''C1'', hit ''p1'' ''1700000001.000100'' ''C1'']
       = [hit ''p1'' ''1700000001.000100'' ''C1'']"
    by (simp add: uniqueMessages_def new_Map_def Map_values_def hit_def)
  have fs: "federatedSearch same_hit_api two_words = Some (Inr [hit ''p1'' ''1700000001.000100'' ''C1''])"
    by (simp add: federatedSearch_def two_words_def gv variationSearch_def ps um)
  show ?thesis
    using fs um
      uniqueMessages_one_per_permalink [where api = same_hit_api and params = two_words
        and msgs = "[hit ''p1'' ''1700000001.000100'' ''C1'']"]
    by simp
qed

subsection \<open>Thread fetches\<close>

lemma thread_ts_step:
  "(case thread_ts msg of
      Some t \<Rightarrow>
        if t \<noteq> [] then Map_set m t (channel_id msg)
        else if has_replies msg then Map_set m (ts msg) (channel_id msg)
        else m
    | None \<Rightarrow>
        if has_replies msg then Map_set m (ts msg) (channel_id msg)
        else m) =
   (if is_standalone msg then m else Map_set m (threadKey msg) (channel_id msg))"
  by (simp add: is_standalone_def truthy_def threadKey_def split: option.splits)

lemma threadTsToFetch_fold:
  "fold (\<lambda>msg m. if is_standalone msg then m else Map_set m (threadKey msg) (channel_id msg)) msgs m =
   fold (\<lambda>(k, v) m. Map_set m k v)
     (map (\<lambda>msg. (threadKey msg, channel_id msg)) (filter (\<lambda>msg. \<not> is_standalone msg) msgs)) m"
  by (induction msgs arbitrary: m) auto

lemma threadTsToFetch_new_Map:
  "threadTsToFetch msgs =
   new_Map (map (\<lambda>msg. (threadKey msg, channel_id msg)) (filter (\<lambda>msg. \<not> is_standalone msg) msgs))"
  unfolding threadTsToFetch_def thread_ts_step new_Map_def by (rule threadTsToFetch_fold)

lemma find_filter: "find P (filter Q xs) = find (\<lambda>x. Q x \<and> P x) xs"
  by (induction xs) auto

text \<open>
  Claim C4, as amended. The thread fetches that \<^verbatim>\<open>searchMessages\<close> issues are the entries
  of the map \<^verbatim>\<open>threadTsToFetch\<close>: exactly one call for each distinct thread key among
  the thread-bearing matches (those that the stand-alone filter rejects), made in the
  channel of the last thread-bearing match with that key.
\<close>

theorem thread_fetch_per_thread_key:
  "distinct (map fst (thread_fetch_calls msgs))
   \<and> fst ` set (thread_fetch_calls msgs) = threadKey ` {m \<in> set msgs. \<not> is_standalone m}
   \<and> length (thread_fetch_calls msgs) = card (threadKey ` {m \<in> set msgs. \<not> is_standalone m})
   \<and> (\<forall>call\<in>set (thread_fetch_calls msgs).
        \<exists>m. find (\<lambda>m. \<not> is_standalone m \<and> threadKey m = fst call) (rev msgs) = Some m
            \<and> snd call = channel_id m)"
proof -
  let ?kvs = "map (\<lambda>msg. (threadKey msg, channel_id msg)) (filter (\<lambda>msg. \<not> is_standalone msg) msgs)"
  have c: "thread_fetch_calls msgs = new_Map ?kvs"
    by (simp add: thread_fetch_calls_def threadTsToFetch_new_Map)
  have d: "distinct (map fst (thread_fetch_calls msgs))"
    unfolding c by (rule new_Map_distinct)
  have s: "fst ` set (thread_fetch_calls msgs) = threadKey ` {m \<in> set msgs. \<not> is_standalone m}"
    unfolding c new_Map_keys by (auto simp: image_iff)
  have "card (set (map fst (thread_fetch_calls msgs))) = length (map fst (thread_fetch_calls msgs))"
    using d by (rule distinct_card)
  then have l: "length (thread_fetch_calls msgs) = card (threadKey ` {m \<in> set msgs. \<not> is_standalone m})"
    using s by simp
  have "\<exists>m. find (\<lambda>m. \<not> is_standalone m \<and> threadKey m = fst call) (rev msgs) = Some m
            \<and> snd call = channel_id m"
    if "call \<in> set (thread_fetch_calls msgs)" for call
  proof -
    have "map_of (rev ?kvs) (fst call) = Some (snd call)"
      using that new_Map_entry_iff [of "fst call" "snd call" ?kvs] by (simp add: c)
    then have "map_option channel_id
                 (find (\<lambda>m. threadKey m = fst call) (filter (\<lambda>msg. \<not> is_standalone msg) (rev msgs)))
               = Some (snd call)"
      by (simp add: rev_map rev_filter map_of_keyed_find)
    then show ?thesis
      by (auto simp: find_filter)
  qed
  then show ?thesis
    using d s l by blast
qed

lemmas message_mock_defs = hit_def reply_def thread_root_def reply_in_C1_def reply_in_C2_def

lemmas thread_eval_defs =
  thread_fetch_calls_def threadTsToFetch_def is_standalone_def truthy_def has_replies_def
  threadKey_def

theorem thread_fetch_per_thread_key_witness:
  "thread_fetch_calls [reply_in_C1] = [(''1700000001.000100'', ''C1'')]
   \<and> find (\<lambda>m. \<not> is_standalone m \<and> threadKey m = ''1700000001.000100'') (rev [reply_in_C1])
       = Some reply_in_C1"
proof -
  have c: "thread_fetch_calls [reply_in_C1] = [(''1700000001.000100'', ''C1'')]"
    by (simp add: thread_eval_defs message_mock_defs)
  show ?thesis
    using thread_fetch_per_thread_key [of "[reply_in_C1]"]
    by (simp add: c) (simp add: thread_eval_defs message_mock_defs)
qed

text \<open>
  Claim C4 as stated fails: two thread-bearing matches with the same thread key in the
  channels C1 and C2 are two distinct pairs of thread key and channel, and one fetch is
  issued, for C2.
\<close>

theorem thread_fetch_ignores_channel:
  "\<not> is_standalone reply_in_C1 \<and> \<not> is_standalone reply_in_C2
   \<and> (threadKey reply_in_C1, channel_id reply_in_C1) \<noteq> (threadKey reply_in_C2, channel_id reply_in_C2)
   \<and> thread_fetch_calls [reply_in_C1, reply_in_C2] = [(''1700000001.000100'', ''C2'')]"
  by (simp add: thread_eval_defs message_mock_defs)

section \<open>Properties of the rounding to doubles\<close>

declare exponent_up.simps [simp del] exponent_down.simps [simp del]















section \<open>Properties of the thread reconstruction\<close>

subsection \<open>Sorting with a comparator\<close>

lemma set_sort_insert: "set (sort_insert cmp x ys) = insert x (set ys)"
  by (induction ys) auto

lemma distinct_sort_insert: "distinct (sort_insert cmp x ys) \<longleftrightarrow> x \<notin> set ys \<and> distinct ys"
  by (induction ys) (auto simp: set_sort_insert)

lemma set_js_sort: "set (js_sort cmp xs) = set xs"
  by (induction xs) (simp_all add: js_sort_def set_sort_insert)

lemma distinct_js_sort: "distinct (js_sort cmp xs) \<longleftrightarrow> distinct xs"
proof (induction xs)
  case Nil
  then show ?case by (simp add: js_sort_def)
next
  case (Cons x xs)
  have "js_sort cmp (x # xs) = sort_insert cmp x (js_sort cmp xs)"
    by (simp add: js_sort_def)
  then show ?case
    using Cons by (simp add: distinct_sort_insert set_js_sort)
qed

lemma js_sort_Nil_iff: "js_sort cmp xs = [] \<longleftrightarrow> xs = []"
  using set_js_sort [of cmp xs] by (metis set_empty)



lemma distinct_map_sort_insert:
  "distinct (map f (sort_insert cmp x ys)) \<longleftrightarrow> f x \<notin> f ` set ys \<and> distinct (map f ys)"
  by (induction ys) (auto simp: set_sort_insert)

lemma distinct_map_js_sort: "distinct (map f (js_sort cmp xs)) \<longleftrightarrow> distinct (map f xs)"
proof (induction xs)
  case Nil
  then show ?case by (simp add: js_sort_def)
next
  case (Cons x xs)
  have "js_sort cmp (x # xs) = sort_insert cmp x (js_sort cmp xs)"
    by (simp add: js_sort_def)
  then show ?case
    using Cons by (simp add: distinct_map_sort_insert set_js_sort)
qed


subsection \<open>Grouping by thread key\<close>

lemma Map_push_keys: "map fst (Map_push m k x) = map fst m"
  by (induction m) (auto simp: Map_push_def)

lemma map_of_Map_push:
  "map_of (Map_push m k x) k' =
     (if k' = k then map_option (\<lambda>ms. ms @ [x]) (map_of m k) else map_of m k')"
  by (induction m) (auto simp: Map_push_def)

lemma Map_has_map_of: "Map_has m k \<longleftrightarrow> map_of m k \<noteq> None"
  by (simp add: Map_has_def map_of_eq_None_iff)

lemma groupByThread_snoc:
  "groupByThread (msgs @ [msg]) =
     Map_push (if \<not> Map_has (groupByThread msgs) (threadKey msg)
               then Map_set (groupByThread msgs) (threadKey msg) []
               else groupByThread msgs) (threadKey msg) msg"
  by (simp add: groupByThread_def)

lemma groupByThread_distinct: "distinct (map fst (groupByThread msgs))"
proof (induction msgs rule: rev_induct)
  case Nil
  then show ?case by (simp add: groupByThread_def)
next
  case (snoc msg msgs)
  then show ?case
    by (simp add: groupByThread_snoc Map_push_keys Map_set_distinct)
qed

lemma groupByThread_map_of:
  "map_of (groupByThread msgs) k =
     (if k \<in> threadKey ` set msgs then Some (filter (\<lambda>m. threadKey m = k) msgs) else None)"
proof (induction msgs arbitrary: k rule: rev_induct)
  case Nil
  then show ?case by (simp add: groupByThread_def)
next
  case (snoc msg msgs)
  show ?case
  proof (cases "Map_has (groupByThread msgs) (threadKey msg)")
    case True
    then show ?thesis
      using snoc [of k] snoc [of "threadKey msg"]
      by (auto simp: groupByThread_snoc map_of_Map_push Map_has_map_of split: if_splits)
  next
    case False
    then have new: "threadKey msg \<notin> threadKey ` set msgs"
      using snoc [of "threadKey msg"] by (simp add: Map_has_map_of split: if_splits)
    then have "\<forall>x\<in>set msgs. threadKey x \<noteq> threadKey msg"
      by (metis imageI)
    then have "filter (\<lambda>m. threadKey m = threadKey msg) msgs = []"
      by (simp add: filter_empty_conv)
    with False new show ?thesis
      using snoc [of k]
      by (auto simp: groupByThread_snoc map_of_Map_push map_of_Map_set)
  qed
qed

lemma groupByThread_entry:
  assumes "(k, ms) \<in> set (groupByThread msgs)"
  shows "k \<in> threadKey ` set msgs \<and> ms = filter (\<lambda>m. threadKey m = k) msgs"
proof -
  have "map_of (groupByThread msgs) k = Some ms"
    using assms groupByThread_distinct [of msgs] by simp
  then show ?thesis
    by (simp add: groupByThread_map_of split: if_splits)
qed

lemma groupByThread_covers:
  assumes "m \<in> set msgs"
  shows "\<exists>ms. (threadKey m, ms) \<in> set (groupByThread msgs) \<and> m \<in> set ms"
proof -
  have "map_of (groupByThread msgs) (threadKey m) = Some (filter (\<lambda>x. threadKey x = threadKey m) msgs)"
    using assms by (simp add: groupByThread_map_of)
  then have "(threadKey m, filter (\<lambda>x. threadKey x = threadKey m) msgs) \<in> set (groupByThread msgs)"
    by (rule map_of_SomeD)
  then show ?thesis
    using assms by auto
qed

subsection \<open>Promises that all fulfil\<close>

lemma Promise_all_map_Inr:
  "\<forall>x\<in>set xs. f x = Inr (g x) \<Longrightarrow> Promise_all (map f xs) = Inr (map g xs)"
  by (induction xs) auto

lemma Promise_all_Inr_D:
  "Promise_all ps = Inr vs \<Longrightarrow> ps = map Inr vs"
proof (induction ps arbitrary: vs)
  case Nil
  then show ?case by simp
next
  case (Cons p ps)
  then show ?case
    by (cases p) (auto split: sum.splits)
qed

lemma threadFetch_cases:
  "threadFetch api call =
     (if conversations_replies api (snd call) (fst call) = Inl AbortError then Inl AbortError
      else Inr (fetched_messages api call))"
  by (cases call) (auto simp: fetched_messages_def threadFetch_def split: sum.splits)

lemma fetched_messages_failed:
  "conversations_replies api (snd call) (fst call) = Inl e \<Longrightarrow> fetched_messages api call = []"
  by (cases call) (auto simp: fetched_messages_def threadFetch_def)

lemma fetched_messages_ok:
  "conversations_replies api (snd call) (fst call) = Inr d \<Longrightarrow>
   fetched_messages api call = (case thread_messages d of None \<Rightarrow> [] | Some ms \<Rightarrow> ms)"
  by (cases call) (auto simp: fetched_messages_def threadFetch_def)

subsection \<open>The shape of the result\<close>

lemma formatThread_nonempty:
  assumes "ms \<noteq> []"
  shows "formatThread ms = Inr (conversation_of ms)"
proof -
  have "js_sort compare_ts ms \<noteq> []"
    using assms by (simp add: js_sort_Nil_iff)
  then show ?thesis
    by (cases "js_sort compare_ts ms") (simp_all add: formatThread_def conversation_of_def)
qed

lemma thread_members_conversation_of:
  "ms \<noteq> [] \<Longrightarrow> thread_members (conversation_of ms) = js_sort compare_ts ms"
  by (simp add: thread_members_def conversation_of_def js_sort_Nil_iff)

lemma Promise_all_aborted:
  "Inl AbortError \<in> set ps \<Longrightarrow> \<forall>p\<in>set ps. \<forall>e. p = Inl e \<longrightarrow> e = AbortError \<Longrightarrow>
   Promise_all ps = Inl AbortError"
proof (induction ps)
  case Nil
  then show ?case by simp
next
  case (Cons p ps)
  show ?case
  proof (cases p)
    case (Inl e)
    with Cons.prems(2) show ?thesis by simp
  next
    case (Inr v)
    with Cons show ?thesis by auto
  qed
qed

lemma reconstruct_aborted:
  assumes "call \<in> set (thread_fetch_calls msgs)"
    and "conversations_replies api (snd call) (fst call) = Inl AbortError"
  shows "reconstruct api msgs = Inl AbortError"
proof -
  have "Inl AbortError \<in> set (map (threadFetch api) (thread_fetch_calls msgs))"
    using assms by (force simp: threadFetch_cases)
  moreover have "\<forall>p\<in>set (map (threadFetch api) (thread_fetch_calls msgs)). \<forall>e. p = Inl e \<longrightarrow> e = AbortError"
    by (auto simp: threadFetch_cases split: if_splits)
  ultimately have "Promise_all (map (threadFetch api) (thread_fetch_calls msgs)) = Inl AbortError"
    by (rule Promise_all_aborted)
  then show ?thesis
    by (simp add: reconstruct_def)
qed

lemma reconstruct_not_aborted:
  assumes "\<forall>call\<in>set (thread_fetch_calls msgs).
             conversations_replies api (snd call) (fst call) \<noteq> Inl AbortError"
  shows "reconstruct api msgs =
           Inr (js_sort (\<lambda>a b. compare_ts (root a) (root b))
                  (map conversation_of
                     (Map_values (groupByThread (finalUniqueMessages (received_messages api msgs))))))"
proof -
  let ?groups = "groupByThread (finalUniqueMessages (received_messages api msgs))"
  have "Promise_all (map (threadFetch api) (thread_fetch_calls msgs)) =
        Inr (map (fetched_messages api) (thread_fetch_calls msgs))"
    using assms by (intro Promise_all_map_Inr) (simp add: threadFetch_cases)
  moreover have "\<forall>ms\<in>set (Map_values ?groups). formatThread ms = Inr (conversation_of ms)"
  proof
    fix ms assume "ms \<in> set (Map_values ?groups)"
    then obtain k where "(k, ms) \<in> set ?groups"
      by (auto simp: Map_values_def)
    then have "k \<in> threadKey ` set (finalUniqueMessages (received_messages api msgs))"
      and "ms = filter (\<lambda>m. threadKey m = k) (finalUniqueMessages (received_messages api msgs))"
      using groupByThread_entry by blast+
    then have "ms \<noteq> []"
      by (auto simp: filter_empty_conv)
    then show "formatThread ms = Inr (conversation_of ms)"
      by (rule formatThread_nonempty)
  qed
  then have "Promise_all (map formatThread (Map_values ?groups)) =
             Inr (map conversation_of (Map_values ?groups))"
    by (rule Promise_all_map_Inr)
  ultimately show ?thesis
    by (simp add: reconstruct_def received_messages_def Let_def)
qed

lemma reconstruct_Inr_iff:
  "reconstruct api msgs = Inr convs \<longleftrightarrow>
     (\<forall>call\<in>set (thread_fetch_calls msgs).
        conversations_replies api (snd call) (fst call) \<noteq> Inl AbortError)
     \<and> convs = js_sort (\<lambda>a b. compare_ts (root a) (root b))
                  (map conversation_of
                     (Map_values (groupByThread (finalUniqueMessages (received_messages api msgs)))))"
  using reconstruct_not_aborted [of msgs api] reconstruct_aborted [of _ msgs api]
  by (metis Inl_Inr_False sum.inject(2))

lemma reconstruct_groups:
  assumes "reconstruct api msgs = Inr convs"
  shows "set convs = conversation_of ` snd `
           set (groupByThread (finalUniqueMessages (received_messages api msgs)))"
  using assms by (auto simp: reconstruct_Inr_iff set_js_sort Map_values_def)

lemma final_group:
  assumes "(k, ms) \<in> set (groupByThread (finalUniqueMessages all))"
  shows "ms \<noteq> []" and "distinct (map ts ms)" and "set ms \<subseteq> set all"
    and "\<forall>m\<in>set ms. threadKey m = k"
proof -
  have k: "k \<in> threadKey ` set (finalUniqueMessages all)"
    and ms: "ms = filter (\<lambda>m. threadKey m = k) (finalUniqueMessages all)"
    using groupByThread_entry [OF assms] by simp_all
  show "ms \<noteq> []"
    using k ms by (auto simp: filter_empty_conv)
  have "distinct (map ts (finalUniqueMessages all))"
    unfolding finalUniqueMessages_def by (rule dedup_distinct)
  then show "distinct (map ts ms)"
    unfolding ms by (rule distinct_map_filter)
  show "set ms \<subseteq> set all"
    using dedup_subset [of ts all] by (auto simp: ms finalUniqueMessages_def)
  show "\<forall>m\<in>set ms. threadKey m = k"
    by (simp add: ms)
qed

lemma reconstruct_thread:
  assumes "reconstruct api msgs = Inr convs" and "c \<in> set convs"
  obtains k ms where "(k, ms) \<in> set (groupByThread (finalUniqueMessages (received_messages api msgs)))"
    and "thread_members c = js_sort compare_ts ms"
proof -
  obtain e where e: "e \<in> set (groupByThread (finalUniqueMessages (received_messages api msgs)))"
    and c: "c = conversation_of (snd e)"
    using assms reconstruct_groups [OF assms(1)] by auto
  obtain k ms where kms: "e = (k, ms)" by (cases e)
  have "ms \<noteq> []"
    using final_group(1) e kms by blast
  then have "thread_members c = js_sort compare_ts ms"
    using c kms by (simp add: thread_members_conversation_of)
  then show ?thesis
    using that e kms by blast
qed

lemma searchMessages_Inr_D:
  assumes "searchMessages api params = Some (Inr convs)"
  obtains msgs where "federatedSearch api params = Some (Inr msgs)"
    and "reconstruct api msgs = Inr convs"
  using assms by (auto simp: searchMessages_def split: option.splits sum.splits)


lemmas search_eval_defs =
  federatedSearch_def variationSearch_def performSearch_def performSearch_trace_def
  performSearch_loop.simps hasMore_def page_matches_def search_page_def
  uniqueMessages_def new_Map_def Map_values_def

lemmas reconstruct_eval_defs =
  searchMessages_def reconstruct_def thread_fetch_calls_def threadTsToFetch_def threadFetch_def
  standaloneMessages_def is_standalone_def truthy_def has_replies_def finalUniqueMessages_def
  new_Map_def Map_values_def groupByThread_def Map_has_def Map_push_def threadKey_def
  formatThread_def js_sort_def compare_ts_def js_minus_def double_infinity_def Let_def

lemmas double_eval_defs =
  parseFloat_def read_sign_def is_space_def is_digit_def digits_value_def integer_digits_def
  fraction_digits_def literal_rest_def exponent_part_def to_double_def binary_exponent_def exponent_up.simps exponent_down.simps
  round_half_even_def Let_def

subsection \<open>The example searches, evaluated\<close>

lemma example_doubles:
  "parseFloat ''999999999.000100'' = Some (8388607991612231 / 8388608)"
  "parseFloat ''1700000000.000100'' = Some (7130316800000419 / 4194304)"
  "parseFloat ''1700000001.000100'' = Some (7130316804194723 / 4194304)"
  "parseFloat ''1700000001.000200'' = Some (7130316804195143 / 4194304)"
  "parseFloat ''1700000002.000100'' = Some (7130316808389027 / 4194304)"
  "parseFloat ''1700000002.000200'' = Some (7130316808389447 / 4194304)"
  "parseFloat ''1700000001.00000011'' = Some 1700000001"
  "parseFloat ''1700000001.0000001'' = Some 1700000001"
  by (simp_all add: double_eval_defs)

lemma gv1: "generateQueryVariations ''deploy'' = [''deploy'']"
  by (simp add: generateQueryVariations_def filter_Boolean_def is_space_def js_split_ws.simps)

lemma fs1: "federatedSearch failing_thread_api one_word =
  Some (Inr [thread_root ''p1'' ''1700000001.000100'' 2 ''C1'',
             reply ''p2'' ''1700000002.000200'' ''1700000002.000100'' ''C1'',
             hit ''p3'' ''999999999.000100'' ''C1''])"
  by (simp add: search_eval_defs one_word_def gv1 failing_thread_api_def hit_def reply_def thread_root_def)

lemma sm1: "searchMessages failing_thread_api one_word =
  Some (Inr [\<lparr>root = hit ''p3'' ''999999999.000100'' ''C1'', replies = []\<rparr>,
             \<lparr>root = thread_root [] ''1700000002.000100'' 1 ''C1'',
              replies = [reply [] ''1700000002.000200'' ''1700000002.000100'' ''C1'']\<rparr>])"
  unfolding searchMessages_def fs1
  by (simp add: reconstruct_eval_defs example_doubles failing_thread_api_def hit_def reply_def
      thread_root_def)

lemma fs2: "federatedSearch mixed_channel_api one_word =
  Some (Inr [hit ''p1'' ''1700000001.000100'' ''C1'',
             reply ''p2'' ''1700000001.000200'' ''1700000001.000100'' ''C2''])"
  by (simp add: search_eval_defs one_word_def gv1 mixed_channel_api_def hit_def reply_def)

lemma sm2: "searchMessages mixed_channel_api one_word =
  Some (Inr [\<lparr>root = hit ''p1'' ''1700000001.000100'' ''C1'',
              replies = [reply [] ''1700000001.000200'' ''1700000001.000100'' ''C2'']\<rparr>])"
  unfolding searchMessages_def fs2
  by (simp add: reconstruct_eval_defs example_doubles mixed_channel_api_def hit_def reply_def)



lemma calls1:
  "thread_fetch_calls [thread_root ''p1'' ''1700000001.000100'' 2 ''C1'',
             reply ''p2'' ''1700000002.000200'' ''1700000002.000100'' ''C1'',
             hit ''p3'' ''999999999.000100'' ''C1'']
   = [(''1700000001.000100'', ''C1''), (''1700000002.000100'', ''C1'')]"
  by (simp add: thread_eval_defs message_mock_defs)

lemma received1:
  "received_messages failing_thread_api
     [thread_root ''p1'' ''1700000001.000100'' 2 ''C1'',
      reply ''p2'' ''1700000002.000200'' ''1700000002.000100'' ''C1'',
      hit ''p3'' ''999999999.000100'' ''C1'']
   = [hit ''p3'' ''999999999.000100'' ''C1'',
      thread_root [] ''1700000002.000100'' 1 ''C1'',
      reply [] ''1700000002.000200'' ''1700000002.000100'' ''C1'']"
  unfolding received_messages_def calls1
  by (simp add: fetched_messages_def threadFetch_def standaloneMessages_def is_standalone_def
      truthy_def has_replies_def failing_thread_api_def message_mock_defs)

subsection \<open>Threads\<close>

text \<open>
  Claim C5, as amended. In every conversation of a result of \<^verbatim>\<open>searchMessages\<close> the
  parent is not among the replies, the timestamps of the members are pairwise distinct,
  and every member has the thread key of the parent (its \<^verbatim>\<open>thread_ts\<close> when that is a
  non-empty string, else its own \<^verbatim>\<open>ts\<close>). The members are in one channel whenever no
  two of the messages received (the stand-alone matches and the fetched thread messages)
  have the same thread key in different channels: the grouping looks at the thread key
  only.
\<close>

theorem conversation_thread_invariant:
  assumes "searchMessages api params = Some (Inr convs)" and "c \<in> set convs"
  shows "root c \<notin> set (replies c)
     \<and> distinct (map ts (thread_members c))
     \<and> (\<forall>m\<in>set (thread_members c). threadKey m = threadKey (root c))
     \<and> (\<forall>msgs. federatedSearch api params = Some (Inr msgs)
           \<and> (\<forall>m\<in>set (received_messages api msgs). \<forall>m'\<in>set (received_messages api msgs).
                 threadKey m = threadKey m' \<longrightarrow> channel_id m = channel_id m')
           \<longrightarrow> (\<forall>m\<in>set (thread_members c). channel_id m = channel_id (root c)))"
proof -
  obtain msgs where fs: "federatedSearch api params = Some (Inr msgs)"
    and rc: "reconstruct api msgs = Inr convs"
    using assms(1) by (rule searchMessages_Inr_D)
  obtain k ms
    where g: "(k, ms) \<in> set (groupByThread (finalUniqueMessages (received_messages api msgs)))"
      and tm: "thread_members c = js_sort compare_ts ms"
    using rc assms(2) by (rule reconstruct_thread)
  have d: "distinct (map ts ms)" and sub: "set ms \<subseteq> set (received_messages api msgs)"
    and key: "\<forall>m\<in>set ms. threadKey m = k"
    using final_group [OF g] by simp_all
  have mem: "set (thread_members c) = set ms"
    by (simp add: tm set_js_sort)
  have "distinct ms"
    using d by (simp add: distinct_map)
  then have dm: "distinct (thread_members c)"
    by (simp add: tm distinct_js_sort)
  then have 1: "root c \<notin> set (replies c)"
    by (simp add: thread_members_def)
  have inj: "inj_on ts (set (thread_members c))"
    using d mem by (simp add: distinct_map)
  then have 2: "distinct (map ts (thread_members c))"
    using dm by (simp add: distinct_map)
  have r: "root c \<in> set ms"
    using mem by (auto simp: thread_members_def)
  have 3: "\<forall>m\<in>set (thread_members c). threadKey m = threadKey (root c)"
    using key r mem by simp
  have 4: "\<forall>m\<in>set (thread_members c). channel_id m = channel_id (root c)"
    if "federatedSearch api params = Some (Inr msgs')"
      and same: "\<forall>m\<in>set (received_messages api msgs'). \<forall>m'\<in>set (received_messages api msgs').
                 threadKey m = threadKey m' \<longrightarrow> channel_id m = channel_id m'"
    for msgs'
  proof -
    have "msgs' = msgs" using that(1) fs by simp
    then show ?thesis
      using same sub r mem 3 by (metis subsetD)
  qed
  show ?thesis
    using 1 2 3 4 by blast
qed

theorem conversation_thread_invariant_witness:
  "root \<lparr>root = thread_root [] ''1700000002.000100'' 1 ''C1'',
         replies = [reply [] ''1700000002.000200'' ''1700000002.000100'' ''C1'']\<rparr>
     \<notin> set (replies \<lparr>root = thread_root [] ''1700000002.000100'' 1 ''C1'',
                      replies = [reply [] ''1700000002.000200'' ''1700000002.000100'' ''C1'']\<rparr>)
   \<and> threadKey (reply [] ''1700000002.000200'' ''1700000002.000100'' ''C1'')
       = threadKey (thread_root [] ''1700000002.000100'' 1 ''C1'')
   \<and> channel_id (reply [] ''1700000002.000200'' ''1700000002.000100'' ''C1'')
       = channel_id (thread_root [] ''1700000002.000100'' 1 ''C1'')"
proof -
  let ?hits = "[thread_root ''p1'' ''1700000001.000100'' 2 ''C1'',
                reply ''p2'' ''1700000002.000200'' ''1700000002.000100'' ''C1'',
                hit ''p3'' ''999999999.000100'' ''C1'']"
  have same: "\<forall>m\<in>set (received_messages failing_thread_api ?hits).
                \<forall>m'\<in>set (received_messages failing_thread_api ?hits).
                  threadKey m = threadKey m' \<longrightarrow> channel_id m = channel_id m'"
    unfolding received1 by (simp add: message_mock_defs)
  let ?c = "\<lparr>root = thread_root [] ''1700000002.000100'' 1 ''C1'',
             replies = [reply [] ''1700000002.000200'' ''1700000002.000100'' ''C1'']\<rparr>"
  have cin: "?c \<in> set [\<lparr>root = hit ''p3'' ''999999999.000100'' ''C1'', replies = []\<rparr>, ?c]"
    by simp
  note inv = conversation_thread_invariant [OF sm1 cin]
  have a: "root ?c \<notin> set (replies ?c)"
    using inv by (rule conjunct1)
  have b: "\<forall>m\<in>set (thread_members ?c). threadKey m = threadKey (root ?c)"
    using inv by (elim conjE)
  have "\<forall>msgs. federatedSearch failing_thread_api one_word = Some (Inr msgs)
           \<and> (\<forall>m\<in>set (received_messages failing_thread_api msgs).
                 \<forall>m'\<in>set (received_messages failing_thread_api msgs).
                 threadKey m = threadKey m' \<longrightarrow> channel_id m = channel_id m')
           \<longrightarrow> (\<forall>m\<in>set (thread_members ?c). channel_id m = channel_id (root ?c))"
    using inv by (elim conjE)
  then have c: "\<forall>m\<in>set (thread_members ?c). channel_id m = channel_id (root ?c)"
    using fs1 same by blast
  show ?thesis
    using a b c by (simp add: thread_members_def)
qed

text \<open>
  Claim C5 as stated fails in its last part: a stand-alone match in C1 and a fetched reply
  in C2 whose thread timestamp is the timestamp of that match end up in one conversation.
\<close>

theorem conversation_mixes_channels:
  "searchMessages mixed_channel_api one_word =
     Some (Inr [\<lparr>root = hit ''p1'' ''1700000001.000100'' ''C1'',
                 replies = [reply [] ''1700000001.000200'' ''1700000001.000100'' ''C2'']\<rparr>])
   \<and> channel_id (hit ''p1'' ''1700000001.000100'' ''C1'')
       \<noteq> channel_id (reply [] ''1700000001.000200'' ''1700000001.000100'' ''C2'')"
  by (simp add: sm2) (simp add: hit_def reply_def)

subsection \<open>Order\<close>





subsection \<open>Failing thread fetches\<close>

lemma reconstruct_members:
  assumes "reconstruct api msgs = Inr convs"
  shows "(\<Union>c\<in>set convs. set (thread_members c)) = set (finalUniqueMessages (received_messages api msgs))"
proof (intro equalityI subsetI)
  fix m assume "m \<in> (\<Union>c\<in>set convs. set (thread_members c))"
  then obtain c where c: "c \<in> set convs" and m: "m \<in> set (thread_members c)"
    by blast
  obtain k ms
    where g: "(k, ms) \<in> set (groupByThread (finalUniqueMessages (received_messages api msgs)))"
      and tm: "thread_members c = js_sort compare_ts ms"
    using assms c by (rule reconstruct_thread)
  have "ms = filter (\<lambda>m. threadKey m = k) (finalUniqueMessages (received_messages api msgs))"
    using groupByThread_entry [OF g] by simp
  then show "m \<in> set (finalUniqueMessages (received_messages api msgs))"
    using m by (simp add: tm set_js_sort)
next
  fix m assume "m \<in> set (finalUniqueMessages (received_messages api msgs))"
  then obtain ms
    where g: "(threadKey m, ms) \<in> set (groupByThread (finalUniqueMessages (received_messages api msgs)))"
      and m: "m \<in> set ms"
    using groupByThread_covers by blast
  have "ms \<noteq> []" using m by auto
  then have "thread_members (conversation_of ms) = js_sort compare_ts ms"
    by (rule thread_members_conversation_of)
  then have "m \<in> set (thread_members (conversation_of ms))"
    using m by (simp add: set_js_sort)
  moreover have "conversation_of ms \<in> set convs"
    using g reconstruct_groups [OF assms] by force
  ultimately show "m \<in> (\<Union>c\<in>set convs. set (thread_members c))"
    by blast
qed

lemma find_distinct_key:
  "distinct (map f xs) \<Longrightarrow> x \<in> set xs \<Longrightarrow> find (\<lambda>y. f y = f x) xs = Some x"
proof (induction xs)
  case Nil
  then show ?case by simp
next
  case (Cons y ys)
  then show ?case by (cases "y = x") (auto simp: image_iff)
qed

lemma finalUniqueMessages_distinct_ts:
  assumes "distinct (map ts all)"
  shows "set (finalUniqueMessages all) = set all"
proof -
  have "distinct (map ts (rev all))"
    using assms by (simp add: rev_map [symmetric])
  then have "find (\<lambda>y. ts y = ts x) (rev all) = Some x" if "x \<in> set all" for x
    using that by (intro find_distinct_key) simp_all
  then have "set all \<subseteq> set (finalUniqueMessages all)"
    by (auto simp: finalUniqueMessages_def dedup_member_iff)
  moreover have "set (finalUniqueMessages all) \<subseteq> set all"
    unfolding finalUniqueMessages_def by (rule dedup_subset)
  ultimately show ?thesis by blast
qed

lemma reconstruct_thread_members:
  assumes "reconstruct api msgs = Inr convs" and "c \<in> set convs"
  shows "set (thread_members c) =
         {m \<in> set (finalUniqueMessages (received_messages api msgs)). threadKey m = threadKey (root c)}"
proof -
  obtain k ms
    where g: "(k, ms) \<in> set (groupByThread (finalUniqueMessages (received_messages api msgs)))"
      and tm: "thread_members c = js_sort compare_ts ms"
    using assms by (rule reconstruct_thread)
  have ms: "ms = filter (\<lambda>m. threadKey m = k) (finalUniqueMessages (received_messages api msgs))"
    using groupByThread_entry [OF g] by simp
  have mem: "set (thread_members c) = set ms"
    by (simp add: tm set_js_sort)
  have "root c \<in> set ms"
    using mem by (auto simp: thread_members_def)
  then have "threadKey (root c) = k"
    by (simp add: ms)
  then show ?thesis
    using mem by (auto simp: ms)
qed

lemma group_root_key:
  assumes "(k, ms) \<in> set (groupByThread (finalUniqueMessages all))"
  shows "threadKey (root (conversation_of ms)) = k"
proof -
  have ne: "ms \<noteq> []" and key: "\<forall>m\<in>set ms. threadKey m = k"
    using final_group [OF assms] by simp_all
  have "thread_members (conversation_of ms) = js_sort compare_ts ms"
    using ne by (rule thread_members_conversation_of)
  then have "root (conversation_of ms) \<in> set (js_sort compare_ts ms)"
    by (metis list.set_intros(1) thread_members_def)
  then show ?thesis
    using key by (simp add: set_js_sort)
qed

lemma reconstruct_one_per_key:
  assumes "reconstruct api msgs = Inr convs"
  shows "distinct (map (\<lambda>c. threadKey (root c)) convs)"
proof -
  let ?groups = "groupByThread (finalUniqueMessages (received_messages api msgs))"
  have convs: "convs = js_sort (\<lambda>a b. compare_ts (root a) (root b))
                         (map conversation_of (Map_values ?groups))"
    using assms by (simp add: reconstruct_Inr_iff)
  have "threadKey (root (conversation_of (snd e))) = fst e" if "e \<in> set ?groups" for e
  proof -
    have "(fst e, snd e) \<in> set ?groups"
      using that by simp
    then show ?thesis
      by (rule group_root_key)
  qed
  then have "map (\<lambda>c. threadKey (root c)) (map conversation_of (Map_values ?groups)) = map fst ?groups"
    by (simp add: Map_values_def)
  then have "distinct (map (\<lambda>c. threadKey (root c)) (map conversation_of (Map_values ?groups)))"
    by (simp only: groupByThread_distinct)
  then show ?thesis
    unfolding convs by (simp only: distinct_map_js_sort)
qed

text \<open>
  Claim C1, as amended. When the search has succeeded and no thread fetch is aborted,
  \<^verbatim>\<open>searchMessages\<close> succeeds, whatever other errors the thread fetches end with. The
  messages received are the stand-alone matches and the messages returned by the thread
  fetches that succeeded; a fetch that failed contributes no message, so the matches of
  its thread, the root included, are not in the result (unless another fetch returned
  them). Of the messages received, the last one with each timestamp survives. The result
  has one conversation for each thread key among the surviving messages, and a
  conversation holds all surviving messages of its thread key; when the timestamps
  received are pairwise distinct, all messages received survive, and a conversation holds
  all messages received that have its thread key.
\<close>

theorem failed_thread_fetch_is_empty:
  assumes "federatedSearch api params = Some (Inr msgs)"
    and "\<forall>call\<in>set (thread_fetch_calls msgs).
           conversations_replies api (snd call) (fst call) \<noteq> Inl AbortError"
  shows "\<exists>convs. searchMessages api params = Some (Inr convs)
     \<and> (\<Union>c\<in>set convs. set (thread_members c)) \<subseteq> set (received_messages api msgs)
     \<and> ts ` (\<Union>c\<in>set convs. set (thread_members c)) = ts ` set (received_messages api msgs)
     \<and> (\<forall>call\<in>set (thread_fetch_calls msgs).
          (\<forall>e. conversations_replies api (snd call) (fst call) = Inl e \<longrightarrow>
                fetched_messages api call = [])
          \<and> (\<forall>d. conversations_replies api (snd call) (fst call) = Inr d \<longrightarrow>
                fetched_messages api call = (case thread_messages d of None \<Rightarrow> [] | Some ms \<Rightarrow> ms)))
     \<and> distinct (map (\<lambda>c. threadKey (root c)) convs)
     \<and> (\<forall>c\<in>set convs.
          set (thread_members c) =
            {m \<in> set (finalUniqueMessages (received_messages api msgs)).
               threadKey m = threadKey (root c)})
     \<and> (\<forall>m\<in>set (received_messages api msgs).
          (\<exists>c\<in>set convs. m \<in> set (thread_members c))
          \<longleftrightarrow> find (\<lambda>y. ts y = ts m) (rev (received_messages api msgs)) = Some m)
     \<and> (distinct (map ts (received_messages api msgs)) \<longrightarrow>
          (\<Union>c\<in>set convs. set (thread_members c)) = set (received_messages api msgs)
          \<and> (\<forall>c\<in>set convs.
                set (thread_members c) =
                  {m \<in> set (received_messages api msgs). threadKey m = threadKey (root c)}))"
proof -
  obtain convs where rc: "reconstruct api msgs = Inr convs"
    using reconstruct_not_aborted [OF assms(2)] by blast
  have sm: "searchMessages api params = Some (Inr convs)"
    using assms(1) rc by (simp add: searchMessages_def)
  have mem: "(\<Union>c\<in>set convs. set (thread_members c)) = set (finalUniqueMessages (received_messages api msgs))"
    using rc by (rule reconstruct_members)
  have 1: "(\<Union>c\<in>set convs. set (thread_members c)) \<subseteq> set (received_messages api msgs)"
    unfolding mem finalUniqueMessages_def by (rule dedup_subset)
  have 2: "ts ` (\<Union>c\<in>set convs. set (thread_members c)) = ts ` set (received_messages api msgs)"
    unfolding mem finalUniqueMessages_def by (rule dedup_key_set)
  have 3: "\<forall>call\<in>set (thread_fetch_calls msgs).
          (\<forall>e. conversations_replies api (snd call) (fst call) = Inl e \<longrightarrow>
                fetched_messages api call = [])
          \<and> (\<forall>d. conversations_replies api (snd call) (fst call) = Inr d \<longrightarrow>
                fetched_messages api call = (case thread_messages d of None \<Rightarrow> [] | Some ms \<Rightarrow> ms))"
    by (simp add: fetched_messages_failed fetched_messages_ok)
  have 4: "distinct (map (\<lambda>c. threadKey (root c)) convs)"
    using rc by (rule reconstruct_one_per_key)
  have 5: "\<forall>c\<in>set convs.
          set (thread_members c) =
            {m \<in> set (finalUniqueMessages (received_messages api msgs)).
               threadKey m = threadKey (root c)}"
    using rc by (simp add: reconstruct_thread_members)
  have 6: "\<forall>m\<in>set (received_messages api msgs).
          (\<exists>c\<in>set convs. m \<in> set (thread_members c))
          \<longleftrightarrow> find (\<lambda>y. ts y = ts m) (rev (received_messages api msgs)) = Some m"
  proof
    fix m assume "m \<in> set (received_messages api msgs)"
    have "(\<exists>c\<in>set convs. m \<in> set (thread_members c))
          \<longleftrightarrow> m \<in> set (finalUniqueMessages (received_messages api msgs))"
      using mem by blast
    then show "(\<exists>c\<in>set convs. m \<in> set (thread_members c))
          \<longleftrightarrow> find (\<lambda>y. ts y = ts m) (rev (received_messages api msgs)) = Some m"
      by (simp add: finalUniqueMessages_def dedup_member_iff)
  qed
  have 7: "distinct (map ts (received_messages api msgs)) \<longrightarrow>
          (\<Union>c\<in>set convs. set (thread_members c)) = set (received_messages api msgs)
          \<and> (\<forall>c\<in>set convs.
                set (thread_members c) =
                  {m \<in> set (received_messages api msgs). threadKey m = threadKey (root c)})"
  proof
    assume "distinct (map ts (received_messages api msgs))"
    then have eq: "set (finalUniqueMessages (received_messages api msgs)) = set (received_messages api msgs)"
      by (rule finalUniqueMessages_distinct_ts)
    show "(\<Union>c\<in>set convs. set (thread_members c)) = set (received_messages api msgs)
          \<and> (\<forall>c\<in>set convs.
                set (thread_members c) =
                  {m \<in> set (received_messages api msgs). threadKey m = threadKey (root c)})"
      using 5 mem unfolding eq by (intro conjI)
  qed
  show ?thesis
    using sm 1 2 3 4 5 6 7 by (intro exI [of _ convs] conjI)
qed

theorem failed_thread_fetch_is_empty_witness:
  "searchMessages failing_thread_api one_word =
     Some (Inr [\<lparr>root = hit ''p3'' ''999999999.000100'' ''C1'', replies = []\<rparr>,
                \<lparr>root = thread_root [] ''1700000002.000100'' 1 ''C1'',
                 replies = [reply [] ''1700000002.000200'' ''1700000002.000100'' ''C1'']\<rparr>])
   \<and> fetched_messages failing_thread_api (''1700000001.000100'', ''C1'') = []
   \<and> set [hit ''p3'' ''999999999.000100'' ''C1'',
           thread_root [] ''1700000002.000100'' 1 ''C1'',
           reply [] ''1700000002.000200'' ''1700000002.000100'' ''C1'']
       \<subseteq> set (received_messages failing_thread_api
                  [thread_root ''p1'' ''1700000001.000100'' 2 ''C1'',
                   reply ''p2'' ''1700000002.000200'' ''1700000002.000100'' ''C1'',
                   hit ''p3'' ''999999999.000100'' ''C1''])"
proof -
  have na: "\<forall>call\<in>set (thread_fetch_calls [thread_root ''p1'' ''1700000001.000100'' 2 ''C1'',
             reply ''p2'' ''1700000002.000200'' ''1700000002.000100'' ''C1'',
             hit ''p3'' ''999999999.000100'' ''C1'']).
           conversations_replies failing_thread_api (snd call) (fst call) \<noteq> Inl AbortError"
    unfolding calls1 by (simp add: failing_thread_api_def)
  have failed: "conversations_replies failing_thread_api ''C1'' ''1700000001.000100''
                  = Inl (UpstreamRejected ''thread_not_found'')"
    by (simp add: failing_thread_api_def)
  show ?thesis
    using failed_thread_fetch_is_empty [OF fs1 na] failed
    unfolding calls1 sm1
    by (simp add: thread_members_def received1)
qed

text \<open>
  Claim C1 as stated fails: the search finds the root of a thread with timestamp
  1700000001.000100; two threads are fetched and the fetch of this one fails with an error
  of the upstream; the call succeeds, the other thread is complete, and no message with
  the timestamp of the failed thread's root is in the result.
\<close>

theorem failed_thread_root_is_dropped:
  "federatedSearch failing_thread_api one_word =
     Some (Inr [thread_root ''p1'' ''1700000001.000100'' 2 ''C1'',
                reply ''p2'' ''1700000002.000200'' ''1700000002.000100'' ''C1'',
                hit ''p3'' ''999999999.000100'' ''C1''])
   \<and> thread_fetch_calls [thread_root ''p1'' ''1700000001.000100'' 2 ''C1'',
                reply ''p2'' ''1700000002.000200'' ''1700000002.000100'' ''C1'',
                hit ''p3'' ''999999999.000100'' ''C1'']
       = [(''1700000001.000100'', ''C1''), (''1700000002.000100'', ''C1'')]
   \<and> conversations_replies failing_thread_api ''C1'' ''1700000001.000100''
       = Inl (UpstreamRejected ''thread_not_found'')
   \<and> searchMessages failing_thread_api one_word =
       Some (Inr [\<lparr>root = hit ''p3'' ''999999999.000100'' ''C1'', replies = []\<rparr>,
                  \<lparr>root = thread_root [] ''1700000002.000100'' 1 ''C1'',
                   replies = [reply [] ''1700000002.000200'' ''1700000002.000100'' ''C1'']\<rparr>])
   \<and> ''1700000001.000100''
       \<notin> set (map ts (concat (map thread_members
            [\<lparr>root = hit ''p3'' ''999999999.000100'' ''C1'', replies = []\<rparr>,
             \<lparr>root = thread_root [] ''1700000002.000100'' 1 ''C1'',
              replies = [reply [] ''1700000002.000200'' ''1700000002.000100'' ''C1'']\<rparr>])))"
  by (simp add: fs1 sm1 calls1) (simp add: failing_thread_api_def thread_members_def message_mock_defs)

end
